theory Spec2Isabelle
  imports Complex_Main "HOL-Library.Word"
begin

section \<open>Machine types of the bindings\<close>

text \<open>
  The bindings are compiled for 64-bit Linux: \<open>unsigned\<close> is a 32-bit word whose
  arithmetic wraps, \<open>size_t\<close> and \<open>_u64\<close> are 64-bit. The only arithmetic of
  \<open>calculate_recall\<close> that can wrap is the 32-bit \<open>recall_at - 1\<close>; it is
  computed on \<open>32 word\<close>. The \<open>size_t\<close> values (\<open>i\<close>, \<open>tie_breaker\<close> and the
  offsets \<open>ground_truth_dims * i\<close>, \<open>result_dims * i\<close>) are natural numbers:
  lemma \<open>size_t_no_wrap\<close> below shows that they stay under \<open>2 ^ 64\<close>.
\<close>

type_synonym u32 = "32 word"
type_synonym u64 = "64 word"

text \<open>
  A \<open>float\<close> or \<open>double\<close> value, up to what the code can observe of it: a finite
  value (as the real number it denotes, the two zeros identified), an infinity or a NaN.
  No operand of this program is negative, so a zero divisor is \<open>+0\<close>.
\<close>

datatype ieee = Fin real | PInf | NInf | NaN

type_synonym float = ieee
type_synonym double = ieee

text \<open>The C++ operator \<open>==\<close> on floats: a NaN is equal to nothing, itself included.\<close>

definition fp_eq :: "ieee \<Rightarrow> ieee \<Rightarrow> bool" where
  "fp_eq a b = (a \<noteq> NaN \<and> b \<noteq> NaN \<and> a = b)"

text \<open>The operator \<open><=\<close> on floats; it orders the rows of a ground-truth file.\<close>

fun fp_le :: "ieee \<Rightarrow> ieee \<Rightarrow> bool" where
  "fp_le NaN _ = False"
| "fp_le _ NaN = False"
| "fp_le NInf _ = True"
| "fp_le _ PInf = True"
| "fp_le (Fin a) (Fin b) = (a \<le> b)"
| "fp_le _ _ = False"

text \<open>
  Arithmetic on \<open>double\<close> is that of IEEE 754 binary64 in the default rounding mode,
  as x86-64 code computes it: the exact result, rounded to the nearest double, a tie going
  to the even significand. \<open>round_double\<close> is this rounding. \<open>scale\<close> brings the
  magnitude to \<open>m * 2 ^ e\<close> with \<open>2 ^ 52 \<le> m < 2 ^ 53\<close>, or with \<open>e = -1074\<close> for a
  subnormal; its first argument bounds the number of steps, and 2200 steps are enough for
  every quotient and product of two doubles. The significand \<open>m\<close> is then rounded to
  an integer; a result of \<open>2 ^ 1024\<close> or more is an overflow.
\<close>

definition round_even :: "real \<Rightarrow> int" where
  "round_even x =
     (let f = \<lfloor>x\<rfloor>; r = x - of_int f
      in if r < 1 / 2 then f else if 1 / 2 < r then f + 1 else if even f then f else f + 1)"

fun scale :: "nat \<Rightarrow> real \<Rightarrow> int \<Rightarrow> real \<times> int" where
  "scale 0 m e = (m, e)"
| "scale (Suc n) m e =
     (if 2 ^ 53 \<le> m then scale n (m / 2) (e + 1)
      else if m < 2 ^ 52 \<and> - 1074 < e then scale n (m * 2) (e - 1)
      else (m, e))"

definition round_double :: "real \<Rightarrow> double" where
  "round_double x =
     (if x = 0 then Fin 0
      else
        let (m, e) = scale 2200 \<bar>x\<bar> 0;
            v = of_int (round_even m) * 2 powi e
        in if 2 ^ 1024 \<le> v then (if x < 0 then NInf else PInf) else Fin (sgn x * v))"

fun fp_div :: "ieee \<Rightarrow> ieee \<Rightarrow> ieee" where
  "fp_div (Fin a) (Fin b) =
     (if b = 0 then (if a = 0 then NaN else if 0 < a then PInf else NInf)
      else round_double (a / b))"
| "fp_div NaN _ = NaN"
| "fp_div _ NaN = NaN"
| "fp_div (Fin a) _ = Fin 0"
| "fp_div PInf (Fin b) = (if b < 0 then NInf else PInf)"
| "fp_div NInf (Fin b) = (if b < 0 then PInf else NInf)"
| "fp_div _ _ = NaN"

fun fp_mul :: "ieee \<Rightarrow> ieee \<Rightarrow> ieee" where
  "fp_mul (Fin a) (Fin b) = round_double (a * b)"
| "fp_mul NaN _ = NaN"
| "fp_mul _ NaN = NaN"
| "fp_mul (Fin a) PInf = (if a = 0 then NaN else if 0 < a then PInf else NInf)"
| "fp_mul (Fin a) NInf = (if a = 0 then NaN else if 0 < a then NInf else PInf)"
| "fp_mul PInf (Fin b) = (if b = 0 then NaN else if 0 < b then PInf else NInf)"
| "fp_mul NInf (Fin b) = (if b = 0 then NaN else if 0 < b then NInf else PInf)"
| "fp_mul PInf PInf = PInf"
| "fp_mul NInf NInf = PInf"
| "fp_mul _ _ = NInf"

text \<open>The conversion of an \<open>unsigned\<close> to \<open>double\<close> is exact.\<close>

definition double_of_unsigned :: "u32 \<Rightarrow> double" where
  "double_of_unsigned n = Fin (real (unat n))"

section \<open>Memory\<close>

text \<open>
  Reading outside an array is undefined behaviour in C++. The embedding is total: such a
  read is the error \<open>OutOfBounds\<close>, and the call stops there. \<open>NotWriteable\<close> is the
  exception that pybind11 raises from \<open>mutable_data()\<close> on a read-only array.
\<close>

datatype error = OutOfBounds | NotWriteable

definition read_at :: "'a list \<Rightarrow> nat \<Rightarrow> error + 'a" where
  "read_at xs n = (if n < length xs then Inr (xs ! n) else Inl OutOfBounds)"

text \<open>
  The elements that \<open>std::set::insert(first, first + n)\<close> reads: none for an empty
  range, \<open>n\<close> consecutive elements otherwise.
\<close>

definition read_range :: "'a list \<Rightarrow> nat \<Rightarrow> nat \<Rightarrow> error + 'a list" where
  "read_range xs first n =
     (if n = 0 then Inr []
      else if first + n \<le> length xs then Inr (take n (drop first xs))
      else Inl OutOfBounds)"

text \<open>
  The three arrays that \<open>calculate_recall\<close> receives by reference. A vector whose
  \<open>data()\<close> is the null pointer (an empty vector that never allocated) is \<open>None\<close>;
  the code tests this for the distances only.
\<close>

record memory =
  ground_truth_ids :: "u32 list"
  ground_truth_dists :: "float list option"
  results :: "u32 list"

text \<open>
  The state of a call: the arrays and the locals \<open>gt\<close>, \<open>res\<close> (two
  \<open>std::set<unsigned>\<close>) and \<open>total_recall\<close>. The counter \<open>cur_recall\<close> is at most
  the size of \<open>res\<close>, which holds at most \<open>recall_at < 2 ^ 32\<close> ids, so the
  \<open>unsigned\<close> counter cannot wrap; \<open>total_recall\<close> is a sum of such counters, kept exact
  (a \<open>double\<close> holds every integer up to \<open>2 ^ 53\<close>).
\<close>

record state = memory +
  gt :: "u32 set"
  res :: "u32 set"
  total_recall :: nat

section \<open>calculate_recall\<close>

text \<open>
  The \<open>while\<close> loop of lines 145-147, on the row that starts at offset \<open>off\<close> of the
  distances. The second conjunct is evaluated only when the first one holds.
\<close>

function tie_scan :: "float list \<Rightarrow> nat \<Rightarrow> u32 \<Rightarrow> u32 \<Rightarrow> nat \<Rightarrow> error + nat" where
  "tie_scan gtd off ground_truth_dims recall_at tie_breaker =
     (if tie_breaker < unat ground_truth_dims then
        (case read_at gtd (off + tie_breaker) of
           Inl e \<Rightarrow> Inl e
         | Inr a \<Rightarrow>
             (case read_at gtd (off + unat (recall_at - 1)) of
                Inl e \<Rightarrow> Inl e
              | Inr b \<Rightarrow>
                  if fp_eq a b
                  then tie_scan gtd off ground_truth_dims recall_at (tie_breaker + 1)
                  else Inr tie_breaker))
      else Inr tie_breaker)"
  by pat_completeness auto
termination
  by (relation "measure (\<lambda>(gtd, off, gd, ra, tb). unat gd - tb)") auto

text \<open>Lines 141-148: the value of \<open>tie_breaker\<close> for query \<open>i\<close>.\<close>

definition tie_breaker_of :: "float list option \<Rightarrow> u32 \<Rightarrow> u32 \<Rightarrow> nat \<Rightarrow> error + nat" where
  "tie_breaker_of gtd_ptr ground_truth_dims recall_at i =
     (case gtd_ptr of
        None \<Rightarrow> Inr (unat recall_at)
      | Some gtd \<Rightarrow>
          tie_scan gtd (unat ground_truth_dims * i) ground_truth_dims recall_at
            (unat (recall_at - 1)))"

text \<open>Lines 139-160: one iteration of the loop over the queries.\<close>

definition loop_body :: "u32 \<Rightarrow> u32 \<Rightarrow> u32 \<Rightarrow> nat \<Rightarrow> state \<Rightarrow> error + state" where
  "loop_body ground_truth_dims result_dims recall_at i s =
     (let s1 = s\<lparr>gt := {}, res := {}\<rparr> in
      case tie_breaker_of (ground_truth_dists s1) ground_truth_dims recall_at i of
        Inl e \<Rightarrow> Inl e
      | Inr tie_breaker \<Rightarrow>
          (case read_range (ground_truth_ids s1) (unat ground_truth_dims * i) tie_breaker of
             Inl e \<Rightarrow> Inl e
           | Inr g \<Rightarrow>
               let s2 = s1\<lparr>gt := gt s1 \<union> set g\<rparr> in
               (case read_range (results s2) (unat result_dims * i) (unat recall_at) of
                  Inl e \<Rightarrow> Inl e
                | Inr r \<Rightarrow>
                    let s3 = s2\<lparr>res := res s2 \<union> set r\<rparr>;
                        cur_recall = card (Set.filter (\<lambda>v. v \<in> res s3) (gt s3))
                    in Inr (s3\<lparr>total_recall := total_recall s3 + cur_recall\<rparr>))))"

function recall_loop :: "u32 \<Rightarrow> u32 \<Rightarrow> u32 \<Rightarrow> u32 \<Rightarrow> nat \<Rightarrow> state \<Rightarrow> error + state" where
  "recall_loop num_queries ground_truth_dims result_dims recall_at i s =
     (if i < unat num_queries then
        (case loop_body ground_truth_dims result_dims recall_at i s of
           Inl e \<Rightarrow> Inl e
         | Inr s' \<Rightarrow> recall_loop num_queries ground_truth_dims result_dims recall_at (i + 1) s')
      else Inr s)"
  by pat_completeness auto
termination
  by (relation "measure (\<lambda>(nq, gd, rd, ra, i, s). unat nq - i)") auto

text \<open>
  The binding, with its arguments in the order of the source. It returns the recall and
  the arrays as the call leaves them.
\<close>

definition calculate_recall ::
  "u32 \<Rightarrow> u32 list \<Rightarrow> float list option \<Rightarrow> u32 \<Rightarrow> u32 list \<Rightarrow> u32 \<Rightarrow> u32 \<Rightarrow>
     error + (double \<times> memory)" where
  "calculate_recall num_queries gti_ptr gtd_ptr ground_truth_dims r_ptr result_dims recall_at =
     (case recall_loop num_queries ground_truth_dims result_dims recall_at 0
             \<lparr>ground_truth_ids = gti_ptr, ground_truth_dists = gtd_ptr, results = r_ptr,
              gt = {}, res = {}, total_recall = 0\<rparr> of
        Inl e \<Rightarrow> Inl e
      | Inr s \<Rightarrow>
          Inr (fp_mul (fp_div (Fin (real (total_recall s))) (double_of_unsigned num_queries))
                      (fp_div (Fin 100) (double_of_unsigned recall_at)),
               memory.truncate s))"

text \<open>
  The set \<open>gt\<close> that iteration \<open>i\<close> builds (lines 141-151) and the value of
  \<open>cur_recall\<close> that it adds to \<open>total_recall\<close> (lines 152-159), as functions of the
  arguments of the call; lemma \<open>loop_body_Inr\<close> ties them to \<open>loop_body\<close>.
\<close>

definition query_gt :: "u32 list \<Rightarrow> float list option \<Rightarrow> u32 \<Rightarrow> u32 \<Rightarrow> nat \<Rightarrow> u32 set" where
  "query_gt gti_ptr gtd_ptr ground_truth_dims recall_at i =
     (case tie_breaker_of gtd_ptr ground_truth_dims recall_at i of
        Inl e \<Rightarrow> {}
      | Inr tie_breaker \<Rightarrow> set (take tie_breaker (drop (unat ground_truth_dims * i) gti_ptr)))"

definition matched ::
  "u32 list \<Rightarrow> float list option \<Rightarrow> u32 \<Rightarrow> u32 list \<Rightarrow> u32 \<Rightarrow> u32 \<Rightarrow> nat \<Rightarrow> nat" where
  "matched gti_ptr gtd_ptr ground_truth_dims r_ptr result_dims recall_at i =
     card (Set.filter
             (\<lambda>v. v \<in> set (take (unat recall_at) (drop (unat result_dims * i) r_ptr)))
             (query_gt gti_ptr gtd_ptr ground_truth_dims recall_at i))"

text \<open>The matched ids of all queries.\<close>

definition total_matched ::
  "u32 \<Rightarrow> u32 list \<Rightarrow> float list option \<Rightarrow> u32 \<Rightarrow> u32 list \<Rightarrow> u32 \<Rightarrow> u32 \<Rightarrow> nat" where
  "total_matched num_queries gti_ptr gtd_ptr ground_truth_dims r_ptr result_dims recall_at =
     (\<Sum>i = 0..<unat num_queries.
        matched gti_ptr gtd_ptr ground_truth_dims r_ptr result_dims recall_at i)"

text \<open>
  The inputs on which the call is meant to run: a rank \<open>recall_at\<close> that exists in a
  ground-truth row and in a result row, and arrays that hold \<open>num_queries\<close> rows each.
  Without distances (\<open>None\<close>) nothing is asked of them.
\<close>

definition valid_input ::
  "u32 \<Rightarrow> u32 list \<Rightarrow> float list option \<Rightarrow> u32 \<Rightarrow> u32 list \<Rightarrow> u32 \<Rightarrow> u32 \<Rightarrow> bool" where
  "valid_input num_queries gti_ptr gtd_ptr ground_truth_dims r_ptr result_dims recall_at =
     (1 \<le> recall_at \<and> recall_at \<le> ground_truth_dims \<and> recall_at \<le> result_dims \<and>
      unat num_queries * unat ground_truth_dims \<le> length gti_ptr \<and>
      (case gtd_ptr of
         None \<Rightarrow> True
       | Some gtd \<Rightarrow> unat num_queries * unat ground_truth_dims \<le> length gtd) \<and>
      unat num_queries * unat result_dims \<le> length r_ptr)"

text \<open>
  Row \<open>i\<close> of the distances, and what a ground-truth file guarantees of it: the entries
  are ranked, nearest first.
\<close>

definition gt_dist_vec :: "float list \<Rightarrow> u32 \<Rightarrow> nat \<Rightarrow> float list" where
  "gt_dist_vec gtd ground_truth_dims i =
     take (unat ground_truth_dims) (drop (unat ground_truth_dims * i) gtd)"

definition ranked :: "float list \<Rightarrow> bool" where
  "ranked row = sorted_wrt fp_le row"

section \<open>calculate_recall_numpy_input\<close>

text \<open>
  The second binding takes the results as a numpy array. pybind11 hands the array over as
  it is when it already is a C-contiguous array of \<open>unsigned\<close> (a copy is made
  otherwise, and a copy is writeable). The binding gets its pointer from
  \<open>results.mutable_data()\<close>, and pybind11's \<open>array::mutable_data\<close> starts with
  \<open>check_writeable()\<close>: on an array whose \<open>writeable\<close> flag is off it throws
  \<open>std::domain_error("array is not writeable")\<close>, which Python sees as a
  \<open>ValueError\<close>. The body is translated again from lines 176-206, not shared with
  \<open>calculate_recall\<close>.
\<close>

record ndarray =
  data :: "u32 list"
  writeable :: bool

definition mutable_data :: "ndarray \<Rightarrow> error + u32 list" where
  "mutable_data a = (if writeable a then Inr (data a) else Inl NotWriteable)"

function tie_scan_numpy_input ::
  "float list \<Rightarrow> nat \<Rightarrow> u32 \<Rightarrow> u32 \<Rightarrow> nat \<Rightarrow> error + nat" where
  "tie_scan_numpy_input gtd off ground_truth_dims recall_at tie_breaker =
     (if tie_breaker < unat ground_truth_dims then
        (case read_at gtd (off + tie_breaker) of
           Inl e \<Rightarrow> Inl e
         | Inr a \<Rightarrow>
             (case read_at gtd (off + unat (recall_at - 1)) of
                Inl e \<Rightarrow> Inl e
              | Inr b \<Rightarrow>
                  if fp_eq a b
                  then tie_scan_numpy_input gtd off ground_truth_dims recall_at
                         (tie_breaker + 1)
                  else Inr tie_breaker))
      else Inr tie_breaker)"
  by pat_completeness auto
termination
  by (relation "measure (\<lambda>(gtd, off, gd, ra, tb). unat gd - tb)") auto

definition loop_body_numpy_input ::
  "u32 \<Rightarrow> u32 \<Rightarrow> u32 \<Rightarrow> nat \<Rightarrow> state \<Rightarrow> error + state" where
  "loop_body_numpy_input ground_truth_dims result_dims recall_at i s =
     (let s1 = s\<lparr>gt := {}, res := {}\<rparr> in
      case (case ground_truth_dists s1 of
              None \<Rightarrow> Inr (unat recall_at)
            | Some gtd \<Rightarrow>
                tie_scan_numpy_input gtd (unat ground_truth_dims * i) ground_truth_dims
                  recall_at (unat (recall_at - 1))) of
        Inl e \<Rightarrow> Inl e
      | Inr tie_breaker \<Rightarrow>
          (case read_range (ground_truth_ids s1) (unat ground_truth_dims * i) tie_breaker of
             Inl e \<Rightarrow> Inl e
           | Inr g \<Rightarrow>
               let s2 = s1\<lparr>gt := gt s1 \<union> set g\<rparr> in
               (case read_range (results s2) (unat result_dims * i) (unat recall_at) of
                  Inl e \<Rightarrow> Inl e
                | Inr r \<Rightarrow>
                    let s3 = s2\<lparr>res := res s2 \<union> set r\<rparr>;
                        cur_recall = card (Set.filter (\<lambda>v. v \<in> res s3) (gt s3))
                    in Inr (s3\<lparr>total_recall := total_recall s3 + cur_recall\<rparr>))))"

function recall_loop_numpy_input ::
  "u32 \<Rightarrow> u32 \<Rightarrow> u32 \<Rightarrow> u32 \<Rightarrow> nat \<Rightarrow> state \<Rightarrow> error + state" where
  "recall_loop_numpy_input num_queries ground_truth_dims result_dims recall_at i s =
     (if i < unat num_queries then
        (case loop_body_numpy_input ground_truth_dims result_dims recall_at i s of
           Inl e \<Rightarrow> Inl e
         | Inr s' \<Rightarrow>
             recall_loop_numpy_input num_queries ground_truth_dims result_dims recall_at
               (i + 1) s')
      else Inr s)"
  by pat_completeness auto
termination
  by (relation "measure (\<lambda>(nq, gd, rd, ra, i, s). unat nq - i)") auto

definition calculate_recall_numpy_input ::
  "u32 \<Rightarrow> u32 list \<Rightarrow> float list option \<Rightarrow> u32 \<Rightarrow> ndarray \<Rightarrow> u32 \<Rightarrow> u32 \<Rightarrow>
     error + (double \<times> memory)" where
  "calculate_recall_numpy_input num_queries gti_ptr gtd_ptr ground_truth_dims results_array
       result_dims recall_at =
     (case mutable_data results_array of
        Inl e \<Rightarrow> Inl e
      | Inr r_ptr \<Rightarrow>
          (case recall_loop_numpy_input num_queries ground_truth_dims result_dims recall_at 0
                  \<lparr>ground_truth_ids = gti_ptr, ground_truth_dists = gtd_ptr,
                   results = r_ptr, gt = {}, res = {}, total_recall = 0\<rparr> of
             Inl e \<Rightarrow> Inl e
           | Inr s \<Rightarrow>
               Inr (fp_mul
                      (fp_div (Fin (real (total_recall s))) (double_of_unsigned num_queries))
                      (fp_div (Fin 100) (double_of_unsigned recall_at)),
                    memory.truncate s)))"

section \<open>load_index\<close>

text \<open>
  \<open>PQFlashIndex\<close> is declared in \<open>pq_flash_index.h\<close>, outside this file. Its two
  methods that \<open>load_index\<close> calls are parameters of the embedding: each takes the
  index object and returns its result with the object as the method leaves it. The
  process records the calls made on the object, oldest first, and what was written to
  \<open>std::cout\<close>. A callee gets a path as \<open>c_str()\<close>, which ends at the first NUL.
\<close>

datatype call = Load int string string | Cache_bfs_levels u64 "u32 list"

datatype out = Str string | Num nat | Endl

record 'ix process =
  pq_flash_index :: 'ix
  calls :: "call list"
  cout :: "out list"

definition c_str :: "string \<Rightarrow> string" where
  "c_str s = takeWhile (\<lambda>c. c \<noteq> CHR 0x00) s"

definition load_index ::
  "('ix \<Rightarrow> int \<Rightarrow> string \<Rightarrow> string \<Rightarrow> int \<times> 'ix) \<Rightarrow>
   ('ix \<Rightarrow> u64 \<Rightarrow> u32 list \<Rightarrow> u32 list \<times> 'ix) \<Rightarrow>
   'ix process \<Rightarrow> string \<Rightarrow> int \<Rightarrow> int \<times> 'ix process" where
  "load_index load cache_bfs_levels self index_path_prefix num_threads =
     (let pq_path = index_path_prefix;
          index_path = index_path_prefix @ ''_disk.index'';
          (load_success, ix1) =
            load (pq_flash_index self) num_threads (c_str pq_path) (c_str index_path);
          p1 = self\<lparr>pq_flash_index := ix1,
                    calls := calls self @ [Load num_threads (c_str pq_path) (c_str index_path)]\<rparr>
      in if load_success \<noteq> 0
         then (load_success, p1\<lparr>cout := cout p1 @ [Str ''Index load failed'', Endl]\<rparr>)
         else
           let node_list = [];
               num_nodes_to_cache = 1000;
               (node_list', ix2) =
                 cache_bfs_levels (pq_flash_index p1) num_nodes_to_cache node_list;
               p2 = p1\<lparr>pq_flash_index := ix2,
                        calls := calls p1 @ [Cache_bfs_levels num_nodes_to_cache node_list]\<rparr>
           in (0, p2\<lparr>cout := cout p2 @
                        [Str ''loaded index, cached '', Num (length node_list'),
                         Str '' nodes based on BFS'', Endl]\<rparr>))"

text \<open>
  Modelled from the spec: \<open>PQFlashIndex::load\<close> and the life cycle of the index, whose
  code (\<open>pq_flash_index.h\<close> and its implementation) is not among the sources. Section
  4.4: an instance is \<open>Unloaded\<close> or \<open>Loaded\<close>, and no query is serviced before
  \<open>Load\<close> completes. Sections 6 and 7: \<open>load(thread_count, codebook_path,
  graph_path)\<close> fails when a file is missing, truncated or inconsistent, a failed
  \<open>Load\<close> returns a non-zero status and the instance remains \<open>Unloaded\<close>; on success
  the instance becomes queryable. \<open>files\<close> gives the status for a pair of paths.
\<close>

datatype index_state = Unloaded | Loaded

definition pq_flash_load ::
  "(string \<Rightarrow> string \<Rightarrow> int) \<Rightarrow> index_state \<Rightarrow> int \<Rightarrow> string \<Rightarrow> string \<Rightarrow>
     int \<times> index_state" where
  "pq_flash_load files st num_threads pq_path index_path =
     (let status = files pq_path index_path
      in (status, if status = 0 then Loaded else Unloaded))"

definition serves_queries :: "index_state \<Rightarrow> bool" where
  "serves_queries st = (st = Loaded)"

section \<open>batch_search and batch_search_numpy_input\<close>

text \<open>
  What the two batch bindings do to the OpenMP runtime. \<open>nthreads_var\<close> is the
  runtime's control variable that \<open>omp_set_num_threads\<close> writes (GNU libgomp stores 1
  for an argument that is not positive) and from which a \<open>parallel\<close> region without a
  \<open>num_threads\<close> clause takes the size of the team it requests. A binding returns the
  runtime as it leaves it and the region it runs: the team requested and the number of
  iterations, one per query. The searches themselves (\<open>cached_beam_search\<close>, declared
  outside this file) and the arrays they fill are not part of this model.
\<close>

record omp =
  nthreads_var :: int

record parallel_for =
  team :: int
  iterations :: nat

definition omp_set_num_threads :: "int \<Rightarrow> omp \<Rightarrow> omp" where
  "omp_set_num_threads n rt = rt\<lparr>nthreads_var := (if 0 < n then n else 1)\<rparr>"

definition batch_search :: "omp \<Rightarrow> u64 \<Rightarrow> int \<Rightarrow> omp \<times> parallel_for" where
  "batch_search rt num_queries num_threads =
     (let rt1 = omp_set_num_threads num_threads rt
      in (rt1, \<lparr>team = nthreads_var rt1, iterations = unat num_queries\<rparr>))"

definition batch_search_numpy_input :: "omp \<Rightarrow> u64 \<Rightarrow> int \<Rightarrow> omp \<times> parallel_for" where
  "batch_search_numpy_input rt num_queries num_threads =
     (rt, \<lparr>team = nthreads_var rt, iterations = unat num_queries\<rparr>)"

section \<open>Reads and the tie scan\<close>

text \<open>
  The equations of the two loops are unfolded by hand, one step at a time.
\<close>

declare tie_scan.simps [simp del] recall_loop.simps [simp del]
  tie_scan_numpy_input.simps [simp del] recall_loop_numpy_input.simps [simp del]

lemma filter_mem_Int: "Set.filter (\<lambda>v. v \<in> B) A = A \<inter> B"
  by auto

lemma read_at_Inr: "read_at xs n = Inr x \<longleftrightarrow> n < length xs \<and> x = xs ! n"
  by (auto simp: read_at_def)

lemma read_range_Inr:
  "read_range xs first n = Inr ys \<longleftrightarrow>
     ys = take n (drop first xs) \<and> (n = 0 \<or> first + n \<le> length xs)"
  by (auto simp: read_range_def)

lemma tie_scan_Inr:
  "tie_scan gtd off gd ra tb = Inr t \<Longrightarrow>
     tb \<le> t \<and> (tb \<le> unat gd \<longrightarrow> t \<le> unat gd) \<and>
     (\<forall>j. tb \<le> j \<and> j < t \<longrightarrow> fp_eq (gtd ! (off + j)) (gtd ! (off + unat (ra - 1)))) \<and>
     (t < unat gd \<longrightarrow> \<not> fp_eq (gtd ! (off + t)) (gtd ! (off + unat (ra - 1))))"
proof (induction gtd off gd ra tb rule: tie_scan.induct)
  case (1 gtd off gd ra tb)
  show ?case
  proof (cases "tb < unat gd")
    case False
    with "1.prems" have "t = tb"
      by (simp add: tie_scan.simps [of gtd off gd ra tb])
    with False show ?thesis by auto
  next
    case True
    from "1.prems" True obtain a b where
      a: "read_at gtd (off + tb) = Inr a" and b: "read_at gtd (off + unat (ra - 1)) = Inr b"
      by (auto simp: tie_scan.simps [of gtd off gd ra tb] split: sum.splits)
    show ?thesis
    proof (cases "fp_eq a b")
      case False
      with "1.prems" True a b have "t = tb"
        by (simp add: tie_scan.simps [of gtd off gd ra tb])
      with False a b True show ?thesis
        by (auto simp: read_at_Inr)
    next
      case eq: True
      with "1.prems" True a b have "tie_scan gtd off gd ra (tb + 1) = Inr t"
        by (simp add: tie_scan.simps [of gtd off gd ra tb])
      from "1.IH" [OF True a b eq this] have
        ih: "tb + 1 \<le> t" "t \<le> unat gd"
          "\<forall>j. tb + 1 \<le> j \<and> j < t \<longrightarrow> fp_eq (gtd ! (off + j)) (gtd ! (off + unat (ra - 1)))"
          "t < unat gd \<longrightarrow> \<not> fp_eq (gtd ! (off + t)) (gtd ! (off + unat (ra - 1)))"
        using True by auto
      have here: "fp_eq (gtd ! (off + tb)) (gtd ! (off + unat (ra - 1)))"
        using a b eq by (simp add: read_at_Inr)
      have "\<forall>j. tb \<le> j \<and> j < t \<longrightarrow> fp_eq (gtd ! (off + j)) (gtd ! (off + unat (ra - 1)))"
      proof (intro allI impI)
        fix j assume "tb \<le> j \<and> j < t"
        then consider "j = tb" | "tb + 1 \<le> j \<and> j < t" by linarith
        then show "fp_eq (gtd ! (off + j)) (gtd ! (off + unat (ra - 1)))"
          using here ih(3) by cases auto
      qed
      with ih show ?thesis by auto
    qed
  qed
qed

lemma tie_scan_total:
  "off + unat gd \<le> length gtd \<Longrightarrow> unat (ra - 1) < unat gd \<Longrightarrow>
     \<exists>t. tie_scan gtd off gd ra tb = Inr t"
proof (induction gtd off gd ra tb rule: tie_scan.induct)
  case (1 gtd off gd ra tb)
  show ?case
  proof (cases "tb < unat gd")
    case False
    then show ?thesis
      by (simp add: tie_scan.simps [of gtd off gd ra tb])
  next
    case True
    with "1.prems" have
      a: "read_at gtd (off + tb) = Inr (gtd ! (off + tb))" and
      b: "read_at gtd (off + unat (ra - 1)) = Inr (gtd ! (off + unat (ra - 1)))"
      by (simp_all add: read_at_def)
    show ?thesis
    proof (cases "fp_eq (gtd ! (off + tb)) (gtd ! (off + unat (ra - 1)))")
      case False
      with True a b show ?thesis
        by (simp add: tie_scan.simps [of gtd off gd ra tb])
    next
      case eq: True
      from "1.IH" [OF True a b eq "1.prems"] obtain t where
        "tie_scan gtd off gd ra (tb + 1) = Inr t" by blast
      with True a b eq show ?thesis
        by (simp add: tie_scan.simps [of gtd off gd ra tb])
    qed
  qed
qed

section \<open>One query, then all of them\<close>

lemma loop_body_Inr:
  assumes "loop_body gd rd ra i s = Inr s'"
  shows "s' = s\<lparr>gt := query_gt (ground_truth_ids s) (ground_truth_dists s) gd ra i,
                 res := set (take (unat ra) (drop (unat rd * i) (results s))),
                 total_recall := total_recall s +
                   matched (ground_truth_ids s) (ground_truth_dists s) gd (results s) rd ra i\<rparr>"
proof -
  from assms obtain tb where
    tb: "tie_breaker_of (ground_truth_dists s) gd ra i = Inr tb"
    by (auto simp: loop_body_def Let_def split: sum.splits)
  from assms tb obtain g where
    g: "read_range (ground_truth_ids s) (unat gd * i) tb = Inr g"
    by (auto simp: loop_body_def Let_def split: sum.splits)
  from assms tb g obtain r where
    r: "read_range (results s) (unat rd * i) (unat ra) = Inr r"
    by (auto simp: loop_body_def Let_def split: sum.splits)
  from g have g': "g = take tb (drop (unat gd * i) (ground_truth_ids s))"
    by (simp add: read_range_Inr)
  from r have r': "r = take (unat ra) (drop (unat rd * i) (results s))"
    by (simp add: read_range_Inr)
  from assms tb g r show ?thesis
    by (simp add: loop_body_def Let_def query_gt_def matched_def g' r')
qed

lemma unat_pred: "1 \<le> (ra :: u32) \<Longrightarrow> unat (ra - 1) = unat ra - 1 \<and> 1 \<le> unat ra"
  by (metis unat_minus_one word_le_nat_alt unat_1 not_one_le_zero unat_0)

lemma row_in_bounds: "i < n \<Longrightarrow> n * d \<le> len \<Longrightarrow> d * i + d \<le> (len :: nat)"
proof -
  assume "i < n" and len: "n * d \<le> len"
  then have "Suc i \<le> n" by simp
  then have "d * Suc i \<le> d * n" by (rule mult_le_mono2)
  with len show ?thesis by (simp add: mult.commute)
qed

lemma tie_breaker_of_valid:
  assumes v: "valid_input nq gti gtd gd r rd ra" and i: "i < unat nq"
  shows "\<exists>tb. tie_breaker_of gtd gd ra i = Inr tb \<and> tb \<le> unat gd"
proof (cases gtd)
  case None
  with v show ?thesis
    by (simp add: tie_breaker_of_def valid_input_def word_le_nat_alt)
next
  case (Some d)
  from v have ra: "unat (ra - 1) = unat ra - 1" "1 \<le> unat ra" "unat ra \<le> unat gd"
    using unat_pred [of ra] by (simp_all add: valid_input_def word_le_nat_alt)
  from v Some i have row: "unat gd * i + unat gd \<le> length d"
    by (auto simp: valid_input_def intro: row_in_bounds)
  from ra have p: "unat (ra - 1) < unat gd" by simp
  from tie_scan_total [OF row p] obtain t where
    t: "tie_scan d (unat gd * i) gd ra (unat (ra - 1)) = Inr t" by blast
  from tie_scan_Inr [OF t] p have "t \<le> unat gd" by simp
  with t Some show ?thesis by (simp add: tie_breaker_of_def)
qed

lemma loop_body_total:
  assumes v: "valid_input nq (ground_truth_ids s) (ground_truth_dists s) gd (results s) rd ra"
    and i: "i < unat nq"
  shows "\<exists>s'. loop_body gd rd ra i s = Inr s'"
proof -
  from tie_breaker_of_valid [OF v i] obtain tb where
    tb: "tie_breaker_of (ground_truth_dists s) gd ra i = Inr tb" "tb \<le> unat gd" by blast
  from v i have "unat gd * i + unat gd \<le> length (ground_truth_ids s)"
    by (auto simp: valid_input_def intro: row_in_bounds)
  with tb have g: "read_range (ground_truth_ids s) (unat gd * i) tb =
      Inr (take tb (drop (unat gd * i) (ground_truth_ids s)))"
    by (simp add: read_range_def)
  from v i have "unat rd * i + unat rd \<le> length (results s)"
    by (auto simp: valid_input_def intro: row_in_bounds)
  moreover from v have "unat ra \<le> unat rd"
    by (simp add: valid_input_def word_le_nat_alt)
  ultimately have r: "read_range (results s) (unat rd * i) (unat ra) =
      Inr (take (unat ra) (drop (unat rd * i) (results s)))"
    by (simp add: read_range_def)
  from tb g r show ?thesis
    by (simp add: loop_body_def Let_def)
qed

lemma recall_loop_Inr:
  "recall_loop nq gd rd ra i s = Inr s' \<Longrightarrow> i \<le> unat nq \<Longrightarrow>
     memory.truncate s' = memory.truncate s \<and>
     total_recall s' = total_recall s +
       (\<Sum>j = i..<unat nq.
          matched (ground_truth_ids s) (ground_truth_dists s) gd (results s) rd ra j)"
proof (induction nq gd rd ra i s rule: recall_loop.induct)
  case (1 nq gd rd ra i s)
  show ?case
  proof (cases "i < unat nq")
    case False
    with "1.prems" have "s' = s" "i = unat nq"
      by (simp_all add: recall_loop.simps [of nq gd rd ra i s])
    then show ?thesis by simp
  next
    case True
    with "1.prems" obtain s1 where
      s1: "loop_body gd rd ra i s = Inr s1" and
      rest: "recall_loop nq gd rd ra (i + 1) s1 = Inr s'"
      by (auto simp: recall_loop.simps [of nq gd rd ra i s] split: sum.splits)
    note b = loop_body_Inr [OF s1]
    from True have "i + 1 \<le> unat nq" by simp
    from "1.IH" [OF True s1 rest this] have
      ih: "memory.truncate s' = memory.truncate s1"
        "total_recall s' = total_recall s1 +
          (\<Sum>j = i + 1..<unat nq.
             matched (ground_truth_ids s1) (ground_truth_dists s1) gd (results s1) rd ra j)"
      by auto
    have arr: "ground_truth_ids s1 = ground_truth_ids s"
      "ground_truth_dists s1 = ground_truth_dists s" "results s1 = results s"
      by (subst b, simp)+
    have tot: "total_recall s1 = total_recall s +
        matched (ground_truth_ids s) (ground_truth_dists s) gd (results s) rd ra i"
      by (subst b) simp
    have "memory.truncate s1 = memory.truncate s"
      by (simp add: memory.truncate_def arr)
    moreover have "(\<Sum>j = i..<unat nq.
          matched (ground_truth_ids s) (ground_truth_dists s) gd (results s) rd ra j) =
        matched (ground_truth_ids s) (ground_truth_dists s) gd (results s) rd ra i +
        (\<Sum>j = i + 1..<unat nq.
          matched (ground_truth_ids s) (ground_truth_dists s) gd (results s) rd ra j)"
      using True by (simp add: sum.atLeast_Suc_lessThan)
    ultimately show ?thesis
      using ih tot by (simp add: arr)
  qed
qed

lemma recall_loop_total:
  "valid_input nq (ground_truth_ids s) (ground_truth_dists s) gd (results s) rd ra \<Longrightarrow>
     \<exists>s'. recall_loop nq gd rd ra i s = Inr s'"
proof (induction nq gd rd ra i s rule: recall_loop.induct)
  case (1 nq gd rd ra i s)
  show ?case
  proof (cases "i < unat nq")
    case False
    then show ?thesis
      by (simp add: recall_loop.simps [of nq gd rd ra i s])
  next
    case True
    from loop_body_total [OF "1.prems" True] obtain s1 where
      s1: "loop_body gd rd ra i s = Inr s1" by blast
    note b = loop_body_Inr [OF s1]
    have arr: "ground_truth_ids s1 = ground_truth_ids s"
      "ground_truth_dists s1 = ground_truth_dists s" "results s1 = results s"
      by (subst b, simp)+
    from "1.prems" have "valid_input nq (ground_truth_ids s1) (ground_truth_dists s1) gd
        (results s1) rd ra"
      by (simp add: arr)
    from "1.IH" [OF True s1 this] obtain s' where
      "recall_loop nq gd rd ra (i + 1) s1 = Inr s'" by blast
    with True s1 show ?thesis
      by (simp add: recall_loop.simps [of nq gd rd ra i s])
  qed
qed

section \<open>Rounding to double\<close>

lemma scale_numeral:
  "scale (numeral k) m e =
     (if 2 ^ 53 \<le> m then scale (pred_numeral k) (m / 2) (e + 1)
      else if m < 2 ^ 52 \<and> - 1074 < e then scale (pred_numeral k) (m * 2) (e - 1)
      else (m, e))"
  by (simp add: numeral_eq_Suc)

lemma round_even_near: "\<bar>real_of_int (round_even x) - x\<bar> \<le> 1 / 2"
  unfolding round_even_def Let_def by (auto simp: abs_if) linarith+

lemma round_even_ge: "real_of_int k \<le> x \<Longrightarrow> k \<le> round_even x"
proof -
  assume "real_of_int k \<le> x"
  then have "k \<le> \<lfloor>x\<rfloor>" by (simp add: le_floor_iff)
  then show ?thesis
    unfolding round_even_def Let_def by auto
qed

lemma round_even_le: "x \<le> real_of_int k \<Longrightarrow> round_even x \<le> k"
proof (cases "x = real_of_int k")
  case True
  then show ?thesis
    unfolding round_even_def Let_def by simp
next
  case False
  assume "x \<le> real_of_int k"
  with False have "x < real_of_int k" by simp
  then have "\<lfloor>x\<rfloor> < k" by (simp add: floor_less_iff)
  then show ?thesis
    unfolding round_even_def Let_def by auto
qed

lemma scale_value:
  "scale n m e = (m', e') \<Longrightarrow> m' * 2 powi e' = m * 2 powi e"
proof (induction n arbitrary: m e)
  case 0
  then show ?case by simp
next
  case (Suc n)
  show ?case
  proof (cases "2 ^ 53 \<le> m")
    case True
    with Suc.prems have "scale n (m / 2) (e + 1) = (m', e')" by simp
    from Suc.IH [OF this] show ?thesis
      by (simp add: power_int_add)
  next
    case False
    show ?thesis
    proof (cases "m < 2 ^ 52 \<and> - 1074 < e")
      case True
      with False Suc.prems have "scale n (m * 2) (e - 1) = (m', e')" by simp
      from Suc.IH [OF this] show ?thesis
        by (simp add: power_int_diff)
    next
      case no: False
      with False Suc.prems show ?thesis by auto
    qed
  qed
qed

lemma scale_down_norm:
  "2 ^ 52 \<le> m \<Longrightarrow> m < 2 ^ 53 * 2 ^ n \<Longrightarrow> scale n m e = (m', e') \<Longrightarrow>
     2 ^ 52 \<le> m' \<and> m' < 2 ^ 53"
proof (induction n arbitrary: m e)
  case 0
  then show ?case by simp
next
  case (Suc n)
  show ?case
  proof (cases "2 ^ 53 \<le> m")
    case True
    with Suc.prems have s: "scale n (m / 2) (e + 1) = (m', e')" by simp
    from True have "2 ^ 52 \<le> m / 2" by simp
    moreover from Suc.prems(2) have "m / 2 < 2 ^ 53 * 2 ^ n" by simp
    ultimately show ?thesis using s by (rule Suc.IH)
  next
    case False
    with Suc.prems show ?thesis by auto
  qed
qed

lemma scale_up_norm:
  "0 < m \<Longrightarrow> m < 2 ^ 53 \<Longrightarrow> 2 ^ 52 \<le> m * 2 ^ k \<Longrightarrow> k \<le> n \<Longrightarrow>
     - 1074 \<le> e - int k \<Longrightarrow> scale n m e = (m', e') \<Longrightarrow>
     2 ^ 52 \<le> m' \<and> m' < 2 ^ 53"
proof (induction n arbitrary: m e k)
  case 0
  then show ?case by simp
next
  case (Suc n)
  show ?case
  proof (cases "m < 2 ^ 52")
    case False
    with Suc.prems show ?thesis by auto
  next
    case True
    with Suc.prems(3) have "k \<noteq> 0" by (cases k) auto
    then obtain k' where k: "k = Suc k'" by (cases k) auto
    with Suc.prems(5) have e: "- 1074 < e" by simp
    with True Suc.prems have s: "scale n (m * 2) (e - 1) = (m', e')" by simp
    from Suc.prems(1) have "0 < m * 2" by simp
    moreover from True have "m * 2 < 2 ^ 53" by simp
    moreover from Suc.prems(3) k have "2 ^ 52 \<le> m * 2 * 2 ^ k'" by (simp add: mult.assoc)
    moreover from Suc.prems(4) k have "k' \<le> n" by simp
    moreover from Suc.prems(5) k have "- 1074 \<le> e - 1 - int k'" by simp
    ultimately show ?thesis using s by (rule Suc.IH)
  qed
qed

lemma scale_normal:
  assumes lo: "1 / 2 ^ 1022 \<le> x" and hi: "x < 2 ^ 1023" and s: "scale 2200 x 0 = (m, e)"
  shows "2 ^ 52 \<le> m \<and> m < 2 ^ 53 \<and> m * 2 powi e = x"
proof -
  have pos: "0 < x"
    using lo by (rule less_le_trans [rotated]) simp
  have val: "m * 2 powi e = x"
    using scale_value [OF s] by simp
  have "2 ^ 52 \<le> m \<and> m < 2 ^ 53"
  proof (cases "2 ^ 52 \<le> x")
    case True
    have "(2 :: real) ^ 1023 \<le> 2 ^ 53 * 2 ^ 2200"
      by (simp add: power_add [symmetric] del: power_numeral)
    with hi have "x < 2 ^ 53 * 2 ^ 2200" by (rule less_le_trans)
    with True show ?thesis using s by (rule scale_down_norm)
  next
    case False
    then have "x < 2 ^ 52" by simp
    also have "(2 :: real) ^ 52 < 2 ^ 53" by simp
    finally have small: "x < 2 ^ 53" .
    have "(2 :: real) ^ 52 = 1 / 2 ^ 1022 * 2 ^ 1074"
      by simp
    also have "\<dots> \<le> x * 2 ^ 1074"
      using lo by (rule mult_right_mono) simp
    finally have up: "2 ^ 52 \<le> x * 2 ^ 1074" .
    show ?thesis
      using pos small up _ _ s by (rule scale_up_norm) simp_all
  qed
  with val show ?thesis by simp
qed

lemma round_double_normal:
  assumes lo: "1 / 2 ^ 1022 \<le> x" and hi: "x < 2 ^ 1023"
  shows "\<exists>y. round_double x = Fin y \<and> \<bar>y - x\<bar> \<le> x / 2 ^ 53"
proof -
  have pos: "0 < x"
    using lo by (rule less_le_trans [rotated]) simp
  obtain m e where s: "scale 2200 x 0 = (m, e)" by fastforce
  from scale_normal [OF lo hi s] have
    m: "2 ^ 52 \<le> m" "m < 2 ^ 53" and val: "m * 2 powi e = x" by simp_all
  define q where "q = round_even m"
  define p where "p = (2 :: real) powi e"
  have p_pos: "0 < p" by (simp add: p_def)
  have near: "\<bar>real_of_int q - m\<bar> \<le> 1 / 2"
    unfolding q_def by (rule round_even_near)
  have "real_of_int (2 ^ 53) = 2 ^ 53" by simp
  with m(2) have "m \<le> real_of_int (2 ^ 53)" by simp
  then have "q \<le> 2 ^ 53" unfolding q_def by (rule round_even_le)
  then have q_hi: "real_of_int q \<le> 2 ^ 53"
    by (metis of_int_le_iff of_int_numeral of_int_power)
  from val have x: "x = m * p" by (simp add: p_def)
  have p_le: "p \<le> x / 2 ^ 52"
  proof -
    have "2 ^ 52 * p \<le> m * p"
      using m(1) p_pos by (simp add: mult_right_mono)
    then show ?thesis by (simp add: x field_simps)
  qed
  define v where "v = real_of_int q * p"
  have "v - x = (real_of_int q - m) * p"
    by (simp add: v_def x algebra_simps)
  then have "\<bar>v - x\<bar> = \<bar>real_of_int q - m\<bar> * p"
    using p_pos by (simp add: abs_mult)
  also have "\<dots> \<le> 1 / 2 * p"
    using near p_pos by (simp add: mult_right_mono)
  also have "\<dots> \<le> 1 / 2 * (x / 2 ^ 52)"
    using p_le by simp
  also have "\<dots> = x / 2 ^ 53" by simp
  finally have err: "\<bar>v - x\<bar> \<le> x / 2 ^ 53" .
  have "v \<le> 2 ^ 53 * p"
    unfolding v_def using q_hi p_pos by (simp add: mult_right_mono)
  also have "\<dots> \<le> 2 ^ 53 * (x / 2 ^ 52)"
    using p_le by simp
  also have "\<dots> = 2 * x" by simp
  also have "\<dots> < 2 * 2 ^ 1023" using hi by simp
  also have "\<dots> = 2 ^ 1024" by simp
  finally have no_overflow: "\<not> 2 ^ 1024 \<le> v" by simp
  from pos s no_overflow have "round_double x = Fin v"
    by (simp add: round_double_def Let_def v_def q_def p_def)
  with err show ?thesis by blast
qed

lemma three_roundings:
  fixes a b d1 d2 d3 :: real
  assumes a: "0 < a" and b: "0 < b"
    and r1: "\<bar>d1 - a\<bar> \<le> a / 2 ^ 53"
    and r2: "\<bar>d2 - b\<bar> \<le> b / 2 ^ 53"
    and r3: "\<bar>d3 - d1 * d2\<bar> \<le> d1 * d2 / 2 ^ 53"
  shows "\<bar>d3 - a * b\<bar> \<le> a * b / 2 ^ 51"
proof -
  define u :: real where "u = 1 / 2 ^ 53"
  have u: "0 < u" "u < 1" by (simp_all add: u_def)
  have r1': "\<bar>d1 - a\<bar> \<le> u * a" and r2': "\<bar>d2 - b\<bar> \<le> u * b"
    and r3': "\<bar>d3 - d1 * d2\<bar> \<le> u * (d1 * d2)"
    using r1 r2 r3 by (simp_all add: u_def)
  have d1: "(1 - u) * a \<le> d1" "d1 \<le> (1 + u) * a"
    using r1' by (simp_all add: abs_le_iff algebra_simps)
  have d2: "(1 - u) * b \<le> d2" "d2 \<le> (1 + u) * b"
    using r2' by (simp_all add: abs_le_iff algebra_simps)
  have lo_a: "0 \<le> (1 - u) * a" and lo_b: "0 \<le> (1 - u) * b"
    using a b u by simp_all
  from lo_a d1(1) have d1_pos: "0 \<le> d1" by simp
  from lo_b d2(1) have d2_pos: "0 \<le> d2" by simp
  have prod_hi: "d1 * d2 \<le> (1 + u) * a * ((1 + u) * b)"
    using d1(2) d2(2) d1_pos d2_pos a u by (intro mult_mono) simp_all
  have prod_lo: "(1 - u) * a * ((1 - u) * b) \<le> d1 * d2"
    using d1(1) d2(1) lo_a lo_b d1_pos by (intro mult_mono) simp_all
  have d3: "(1 - u) * (d1 * d2) \<le> d3" "d3 \<le> (1 + u) * (d1 * d2)"
    using r3' by (simp_all add: abs_le_iff algebra_simps)
  have "d3 \<le> (1 + u) * ((1 + u) * a * ((1 + u) * b))"
    using d3(2) prod_hi u by (meson less_eq_real_def mult_left_mono order_trans add_nonneg_nonneg zero_le_one)
  also have "\<dots> = (1 + u) ^ 3 * (a * b)"
    by (simp add: power3_eq_cube algebra_simps)
  also have "\<dots> \<le> (1 + 4 * u) * (a * b)"
  proof (rule mult_right_mono)
    show "(1 + u) ^ 3 \<le> 1 + 4 * u" by (simp add: u_def power3_eq_cube)
    show "0 \<le> a * b" using a b by simp
  qed
  finally have hi: "d3 - a * b \<le> 4 * u * (a * b)"
    by (simp add: algebra_simps)
  have "(1 - 4 * u) * (a * b) \<le> (1 - u) ^ 3 * (a * b)"
  proof (rule mult_right_mono)
    show "1 - 4 * u \<le> (1 - u) ^ 3" by (simp add: u_def power3_eq_cube)
    show "0 \<le> a * b" using a b by simp
  qed
  also have "\<dots> = (1 - u) * ((1 - u) * a * ((1 - u) * b))"
    by (simp add: power3_eq_cube algebra_simps)
  also have "\<dots> \<le> (1 - u) * (d1 * d2)"
    using prod_lo u by (intro mult_left_mono) simp_all
  also have "\<dots> \<le> d3" by (rule d3(1))
  finally have lo: "- (4 * u * (a * b)) \<le> d3 - a * b"
    by (simp add: algebra_simps)
  from hi lo have "\<bar>d3 - a * b\<bar> \<le> 4 * u * (a * b)"
    by (simp add: abs_le_iff)
  also have "4 * u * (a * b) = a * b / 2 ^ 51"
    by (simp add: u_def)
  finally show ?thesis .
qed

lemma real_below_pow:
  fixes n :: nat
  shows "n < 2 ^ j \<Longrightarrow> real n < 2 ^ j"
  by (metis of_nat_less_iff of_nat_numeral of_nat_power)

lemma recall_value_rounded:
  fixes T n k :: nat
  assumes T: "1 \<le> T" "T < 2 ^ 64" and n: "1 \<le> n" "n < 2 ^ 32"
    and k: "1 \<le> k" "k < 2 ^ 32"
  shows "\<exists>v. fp_mul (fp_div (Fin (real T)) (Fin (real n))) (fp_div (Fin 100) (Fin (real k))) =
               Fin v \<and>
             \<bar>v - real T / (real n * real k) * 100\<bar> \<le>
               real T / (real n * real k) * 100 / 2 ^ 51"
proof -
  define a where "a = real T / real n"
  define b where "b = 100 / real k"
  have rT: "1 \<le> real T" "real T < 2 ^ 64"
    using T real_below_pow [of T 64] by simp_all
  have rn: "1 \<le> real n" "real n < 2 ^ 32"
    using n real_below_pow [of n 32] by simp_all
  have rk: "1 \<le> real k" "real k < 2 ^ 32"
    using k real_below_pow [of k 32] by simp_all
  have a_lo: "1 / 2 ^ 32 \<le> a"
  proof -
    have "1 / 2 ^ 32 \<le> 1 / real n"
      using rn by (simp add: frac_le)
    also have "\<dots> \<le> a"
      unfolding a_def using rT rn by (simp add: divide_right_mono)
    finally show ?thesis .
  qed
  have a_hi: "a \<le> 2 ^ 64"
  proof -
    have "a \<le> real T / 1"
      unfolding a_def using rT rn by (intro divide_left_mono) simp_all
    with rT show ?thesis by simp
  qed
  have b_lo: "1 / 2 ^ 32 \<le> b"
  proof -
    have "1 / 2 ^ 32 \<le> 1 / real k"
      using rk by (simp add: frac_le)
    also have "\<dots> \<le> b"
      unfolding b_def using rk by (simp add: divide_right_mono)
    finally show ?thesis .
  qed
  have b_hi: "b \<le> 100"
  proof -
    have "b \<le> 100 / 1"
      unfolding b_def using rk by (intro divide_left_mono) simp_all
    then show ?thesis by simp
  qed
  have a_pos: "0 < a" using a_lo by (rule less_le_trans [rotated]) simp
  have b_pos: "0 < b" using b_lo by (rule less_le_trans [rotated]) simp
  have "(1 :: real) / 2 ^ 1022 \<le> 1 / 2 ^ 32" by simp
  then have a_n: "1 / 2 ^ 1022 \<le> a" and b_n: "1 / 2 ^ 1022 \<le> b"
    using a_lo b_lo by simp_all
  have "(2 :: real) ^ 64 < 2 ^ 1023" by simp
  with a_hi have a_m: "a < 2 ^ 1023" by simp
  have "(100 :: real) < 2 ^ 1023" by simp
  with b_hi have b_m: "b < 2 ^ 1023" by simp
  from round_double_normal [OF a_n a_m] obtain d1 where
    d1: "round_double a = Fin d1" "\<bar>d1 - a\<bar> \<le> a / 2 ^ 53" by blast
  from round_double_normal [OF b_n b_m] obtain d2 where
    d2: "round_double b = Fin d2" "\<bar>d2 - b\<bar> \<le> b / 2 ^ 53" by blast
  have half: "x / 2 ^ 53 \<le> x / 2" if "0 < x" for x :: real
    using that by (simp add: field_simps)
  from d1(2) half [OF a_pos] have "\<bar>d1 - a\<bar> \<le> a / 2" by (rule order_trans)
  then have d1_b: "a / 2 \<le> d1" "d1 \<le> 2 * a"
    by linarith+
  from d2(2) half [OF b_pos] have "\<bar>d2 - b\<bar> \<le> b / 2" by (rule order_trans)
  then have d2_b: "b / 2 \<le> d2" "d2 \<le> 2 * b"
    by linarith+
  have d1_pos: "0 < d1" using d1_b(1) a_pos by simp
  have d2_pos: "0 < d2" using d2_b(1) b_pos by simp
  have c_lo: "1 / 2 ^ 1022 \<le> d1 * d2"
  proof -
    have "(1 :: real) / 2 ^ 1022 \<le> 1 / 2 ^ 33 * (1 / 2 ^ 33)" by simp
    also have "\<dots> \<le> a / 2 * (b / 2)"
      using a_lo b_lo by (intro mult_mono) simp_all
    also have "\<dots> \<le> d1 * d2"
      using d1_b(1) d2_b(1) a_pos b_pos d1_pos by (intro mult_mono) simp_all
    finally show ?thesis .
  qed
  have c_hi: "d1 * d2 < 2 ^ 1023"
  proof -
    have "d1 * d2 \<le> 2 * a * (2 * b)"
      using d1_b(2) d2_b(2) d1_pos d2_pos a_pos by (intro mult_mono) simp_all
    also have "\<dots> \<le> 2 * 2 ^ 64 * (2 * 100)"
      using a_hi b_hi a_pos b_pos by (intro mult_mono) simp_all
    also have "\<dots> < 2 ^ 1023" by simp
    finally show ?thesis .
  qed
  from round_double_normal [OF c_lo c_hi] obtain d3 where
    d3: "round_double (d1 * d2) = Fin d3" "\<bar>d3 - d1 * d2\<bar> \<le> d1 * d2 / 2 ^ 53" by blast
  from rn have n0: "real n \<noteq> 0" by simp
  from rk have k0: "real k \<noteq> 0" by simp
  have val: "fp_mul (fp_div (Fin (real T)) (Fin (real n))) (fp_div (Fin 100) (Fin (real k))) =
      Fin d3"
    using n0 k0 d1(1) d2(1) d3(1) by (simp add: a_def b_def)
  have ab: "a * b = real T / (real n * real k) * 100"
    by (simp add: a_def b_def)
  from three_roundings [OF a_pos b_pos d1(2) d2(2) d3(2)] val show ?thesis
    unfolding ab by blast
qed

lemma recall_value_zero:
  fixes n k :: nat
  assumes n: "1 \<le> n" and k: "1 \<le> k" "k < 2 ^ 32"
  shows "fp_mul (fp_div (Fin (real (0 :: nat))) (Fin (real n))) (fp_div (Fin 100) (Fin (real k))) =
     Fin 0"
proof -
  have rk: "1 \<le> real k" "real k < 2 ^ 32"
    using k real_below_pow [of k 32] by simp_all
  have "(1 :: real) / 2 ^ 1022 \<le> 100 / 2 ^ 32" by simp
  also have "\<dots> \<le> 100 / real k"
    using rk by (intro divide_left_mono) simp_all
  finally have lo: "1 / 2 ^ 1022 \<le> 100 / real k" .
  have "100 / real k \<le> 100 / 1"
    using rk by (intro divide_left_mono) simp_all
  also have "\<dots> < 2 ^ 1023" by simp
  finally have hi: "100 / real k < 2 ^ 1023" .
  from round_double_normal [OF lo hi] obtain d2 where
    "round_double (100 / real k) = Fin d2" by blast
  moreover have "round_double 0 = Fin 0" by (simp add: round_double_def)
  ultimately show ?thesis using n rk by simp
qed

text \<open>The values that the examples below return.\<close>

lemma round_double_eval:
  "round_double 1 = Fin 1"
  "round_double 100 = Fin 100"
  "round_double (1 / 2) = Fin (1 / 2)"
  "round_double 50 = Fin 50"
  "round_double 11 = Fin 11"
  "round_double (100 / 11) = Fin (5117726849284655 / 2 ^ 49)"
  by (simp_all add: round_double_def scale_numeral round_even_def Let_def)

section \<open>Natural numbers for size_t and the counters\<close>

text \<open>
  An offset \<open>dims * i + n\<close> with \<open>i < num_queries\<close> fits \<open>size_t\<close>, and
  \<open>cur_recall\<close> fits \<open>unsigned\<close>.
\<close>

lemma size_t_no_wrap:
  fixes num_queries dims n :: u32
  assumes "i < unat num_queries"
  shows "unat dims * i + unat n < 2 ^ 64"
proof -
  have d: "unat dims < 2 ^ 32" and n: "unat n < 2 ^ 32" and q: "unat num_queries < 2 ^ 32"
    using unsigned_less [of dims] unsigned_less [of n] unsigned_less [of num_queries]
    by simp_all
  from assms q have i: "i \<le> 2 ^ 32 - 1" by simp
  from d have "unat dims \<le> 2 ^ 32 - 1" by simp
  from this i have "unat dims * i \<le> (2 ^ 32 - 1) * (2 ^ 32 - 1)"
    by (rule mult_le_mono)
  with n show ?thesis by simp
qed

lemma cur_recall_no_wrap:
  "matched gti gtd gd r rd (ra :: u32) i \<le> unat ra \<and> unat ra < 2 ^ 32"
proof -
  let ?R = "set (take (unat ra) (drop (unat rd * i) r))"
  have "card (query_gt gti gtd gd ra i \<inter> ?R) \<le> card ?R"
    by (rule card_mono) simp_all
  also have "\<dots> \<le> length (take (unat ra) (drop (unat rd * i) r))"
    by (rule card_length)
  also have "\<dots> \<le> unat ra" by simp
  finally have "matched gti gtd gd r rd ra i \<le> unat ra"
    unfolding matched_def filter_mem_Int .
  moreover have "unat ra < 2 ^ 32"
    using unsigned_less [of ra] by simp
  ultimately show ?thesis ..
qed

section \<open>The value of calculate_recall\<close>

lemma calculate_recall_valid:
  assumes v: "valid_input nq gti gtd gd r rd ra"
  shows "calculate_recall nq gti gtd gd r rd ra =
     Inr (fp_mul (fp_div (Fin (real (\<Sum>i = 0..<unat nq. matched gti gtd gd r rd ra i)))
                    (double_of_unsigned nq))
                 (fp_div (Fin 100) (double_of_unsigned ra)),
          \<lparr>ground_truth_ids = gti, ground_truth_dists = gtd, results = r\<rparr>)"
proof -
  let ?s0 = "\<lparr>ground_truth_ids = gti, ground_truth_dists = gtd, results = r,
              gt = {}, res = {}, total_recall = 0\<rparr>"
  from v have "valid_input nq (ground_truth_ids ?s0) (ground_truth_dists ?s0) gd
      (results ?s0) rd ra" by simp
  from recall_loop_total [OF this] obtain s' where
    s': "recall_loop nq gd rd ra 0 ?s0 = Inr s'" by blast
  from recall_loop_Inr [OF s'] have
    "memory.truncate s' = memory.truncate ?s0"
    "total_recall s' = (\<Sum>i = 0..<unat nq. matched gti gtd gd r rd ra i)"
    by simp_all
  with s' show ?thesis
    by (simp add: calculate_recall_def memory.truncate_def)
qed

lemma total_matched_bound:
  "total_matched nq gti gtd gd r rd ra \<le> unat nq * unat ra \<and>
   total_matched nq gti gtd gd r rd ra < 2 ^ 64"
proof -
  have "total_matched nq gti gtd gd r rd ra \<le> (\<Sum>i = 0..<unat nq. unat ra)"
    unfolding total_matched_def by (intro sum_mono) (simp add: cur_recall_no_wrap)
  then have le: "total_matched nq gti gtd gd r rd ra \<le> unat nq * unat ra"
    by simp
  have "unat nq < 2 ^ 32" "unat ra < 2 ^ 32"
    using unsigned_less [of nq] unsigned_less [of ra] by simp_all
  then have "unat nq \<le> 2 ^ 32 - 1" "unat ra \<le> 2 ^ 32 - 1"
    by simp_all
  then have "unat nq * unat ra \<le> (2 ^ 32 - 1) * (2 ^ 32 - 1)"
    by (rule mult_le_mono)
  also have "\<dots> < (2 :: nat) ^ 64" by simp
  finally show ?thesis using le by simp
qed

text \<open>
  Claim C2, as amended. On a valid input \<open>calculate_recall\<close> returns the double that
  line 162 computes from the matched ids of all queries: the total divided by
  \<open>num_queries\<close>, times 100 divided by \<open>recall_at\<close>, each of the three operations
  rounded to the nearest double. With at least one query this value is within
  \<open>2 ^ -51\<close>, relatively, of the total divided by \<open>num_queries * recall_at\<close>, times
  100; without queries it is \<open>0 / 0\<close>, a NaN. The matched ids of query \<open>i\<close> are the
  ids of its set \<open>gt\<close> (tie-expanded when distances are given) that are among the
  first \<open>recall_at\<close> entries of its result row. The arrays are left as they were.
\<close>

theorem recall_formula:
  assumes "valid_input num_queries gti gtd ground_truth_dims r result_dims recall_at"
  shows "calculate_recall num_queries gti gtd ground_truth_dims r result_dims recall_at =
     Inr (fp_mul
            (fp_div
               (Fin (real (total_matched num_queries gti gtd ground_truth_dims r result_dims
                             recall_at)))
               (Fin (real (unat num_queries))))
            (fp_div (Fin 100) (Fin (real (unat recall_at)))),
          \<lparr>ground_truth_ids = gti, ground_truth_dists = gtd, results = r\<rparr>) \<and>
     (num_queries \<noteq> 0 \<longrightarrow>
        (\<exists>v. fp_mul
               (fp_div
                  (Fin (real (total_matched num_queries gti gtd ground_truth_dims r result_dims
                                recall_at)))
                  (Fin (real (unat num_queries))))
               (fp_div (Fin 100) (Fin (real (unat recall_at)))) = Fin v \<and>
             \<bar>v - real (total_matched num_queries gti gtd ground_truth_dims r result_dims
                          recall_at) /
                    (real (unat num_queries) * real (unat recall_at)) * 100\<bar> \<le>
               real (total_matched num_queries gti gtd ground_truth_dims r result_dims
                       recall_at) /
                 (real (unat num_queries) * real (unat recall_at)) * 100 / 2 ^ 51)) \<and>
     (num_queries = 0 \<longrightarrow>
        fp_mul
          (fp_div
             (Fin (real (total_matched num_queries gti gtd ground_truth_dims r result_dims
                           recall_at)))
             (Fin (real (unat num_queries))))
          (fp_div (Fin 100) (Fin (real (unat recall_at)))) = NaN)"
proof (intro conjI impI)
  let ?T = "total_matched num_queries gti gtd ground_truth_dims r result_dims recall_at"
  let ?n = "unat num_queries"
  let ?k = "unat recall_at"
  from assms have "1 \<le> recall_at" by (simp add: valid_input_def)
  then have k: "1 \<le> ?k" using unat_pred [of recall_at] by simp
  have k32: "?k < 2 ^ 32" using unsigned_less [of recall_at] by simp
  have n32: "?n < 2 ^ 32" using unsigned_less [of num_queries] by simp
  show "calculate_recall num_queries gti gtd ground_truth_dims r result_dims recall_at =
     Inr (fp_mul (fp_div (Fin (real ?T)) (Fin (real ?n))) (fp_div (Fin 100) (Fin (real ?k))),
          \<lparr>ground_truth_ids = gti, ground_truth_dists = gtd, results = r\<rparr>)"
    unfolding calculate_recall_valid [OF assms] total_matched_def double_of_unsigned_def ..
  {
    assume "num_queries \<noteq> 0"
    then have n: "1 \<le> ?n" by (simp add: unat_gt_0 Suc_le_eq)
    show "\<exists>v. fp_mul (fp_div (Fin (real ?T)) (Fin (real ?n)))
                 (fp_div (Fin 100) (Fin (real ?k))) = Fin v \<and>
               \<bar>v - real ?T / (real ?n * real ?k) * 100\<bar> \<le>
                 real ?T / (real ?n * real ?k) * 100 / 2 ^ 51"
    proof (cases "?T = 0")
      case True
      with recall_value_zero [OF n k k32] show ?thesis by simp
    next
      case False
      then have T: "1 \<le> ?T" by simp
      from total_matched_bound have T64: "?T < 2 ^ 64" by blast
      from recall_value_rounded [OF T T64 n n32 k k32] show ?thesis .
    qed
  }
  {
    assume z: "num_queries = 0"
    then have "?T = 0" by (simp add: total_matched_def)
    with z show "fp_mul (fp_div (Fin (real ?T)) (Fin (real ?n)))
        (fp_div (Fin 100) (Fin (real ?k))) = NaN"
      by simp
  }
qed

text \<open>
  Two queries with two ground-truth ids each, distances \<open>[1, 1]\<close> and \<open>[2, 3]\<close>,
  one result each, \<open>recall_at = 1\<close>. The tie of the first row puts both its ids into
  \<open>gt\<close>, so the result 11 matches; the result 5 of the second query does not. One
  match in two queries is 50.
\<close>

theorem recall_formula_witness:
  "valid_input 2 [10, 11, 12, 13] (Some [Fin 1, Fin 1, Fin 2, Fin 3]) 2 [11, 5] 1 1 \<and>
   total_matched 2 [10, 11, 12, 13] (Some [Fin 1, Fin 1, Fin 2, Fin 3]) 2 [11, 5] 1 1 = 1 \<and>
   calculate_recall 2 [10, 11, 12, 13] (Some [Fin 1, Fin 1, Fin 2, Fin 3]) 2 [11, 5] 1 1 =
     Inr (Fin 50,
          \<lparr>ground_truth_ids = [10, 11, 12, 13],
           ground_truth_dists = Some [Fin 1, Fin 1, Fin 2, Fin 3], results = [11, 5]\<rparr>)"
proof -
  let ?gtd = "[Fin 1, Fin 1, Fin 2, Fin 3]"
  have v: "valid_input 2 [10, 11, 12, 13] (Some ?gtd) 2 [11, 5] 1 1"
    by (simp add: valid_input_def)
  have t0: "tie_scan ?gtd 0 2 1 0 = Inr 2"
    by (simp add: tie_scan.simps read_at_def fp_eq_def)
  have t1: "tie_scan ?gtd 2 2 1 0 = Inr 1"
    by (simp add: tie_scan.simps read_at_def fp_eq_def)
  have m0: "matched [10, 11, 12, 13] (Some ?gtd) 2 [11, 5] 1 1 0 = 1"
    unfolding matched_def filter_mem_Int by (simp add: query_gt_def tie_breaker_of_def t0)
  have m1: "matched [10, 11, 12, 13] (Some ?gtd) 2 [11, 5] 1 1 1 = 0"
    unfolding matched_def filter_mem_Int by (simp add: query_gt_def tie_breaker_of_def t1)
  have s: "total_matched 2 [10, 11, 12, 13] (Some ?gtd) 2 [11, 5] 1 1 = 1"
    unfolding total_matched_def using m0 m1 by (simp add: sum.atLeast_Suc_lessThan)
  from recall_formula [OF v, THEN conjunct1, unfolded s] v s show ?thesis
    by (simp add: round_double_eval)
qed

text \<open>
  Claim C2 as stated fails: the value is computed in \<open>double\<close> and is rounded three
  times. One query whose 11 results are its 11 ground-truth ids, \<open>recall_at = 11\<close>:
  all 11 ids match, and the claim gives \<open>11 / (1 * 11) * 100 = 100\<close>. The code
  computes \<open>11.0 / 1\<close>, then \<open>100.0 / 11\<close>, which is rounded up, and their
  product, the next double after 100.
\<close>

theorem recall_formula_rounding_counterexample:
  "valid_input 1 [1, 2, 3, 4, 5, 6, 7, 8, 9, 10, 11] None 11
     [1, 2, 3, 4, 5, 6, 7, 8, 9, 10, 11] 11 11 \<and>
   total_matched 1 [1, 2, 3, 4, 5, 6, 7, 8, 9, 10, 11] None 11
     [1, 2, 3, 4, 5, 6, 7, 8, 9, 10, 11] 11 11 = 11 \<and>
   calculate_recall 1 [1, 2, 3, 4, 5, 6, 7, 8, 9, 10, 11] None 11
     [1, 2, 3, 4, 5, 6, 7, 8, 9, 10, 11] 11 11 =
     Inr (Fin (100 + 1 / 2 ^ 46),
          \<lparr>ground_truth_ids = [1, 2, 3, 4, 5, 6, 7, 8, 9, 10, 11],
           ground_truth_dists = None,
           results = [1, 2, 3, 4, 5, 6, 7, 8, 9, 10, 11]\<rparr>) \<and>
   (100 + 1 / 2 ^ 46 :: real) \<noteq> 11 / (1 * 11) * 100"
proof -
  let ?ids = "[1, 2, 3, 4, 5, 6, 7, 8, 9, 10, 11 :: u32]"
  have v: "valid_input 1 ?ids None 11 ?ids 11 11"
    by (simp add: valid_input_def)
  have m0: "matched ?ids None 11 ?ids 11 11 0 = 11"
    unfolding matched_def filter_mem_Int by (simp add: query_gt_def tie_breaker_of_def)
  have s: "total_matched 1 ?ids None 11 ?ids 11 11 = 11"
    unfolding total_matched_def using m0 by simp
  have "calculate_recall 1 ?ids None 11 ?ids 11 11 =
     Inr (Fin (100 + 1 / 2 ^ 46),
          \<lparr>ground_truth_ids = ?ids, ground_truth_dists = None, results = ?ids\<rparr>)"
    unfolding calculate_recall_valid [OF v] s [unfolded total_matched_def]
    by (simp add: double_of_unsigned_def round_double_def scale_numeral round_even_def
        Let_def)
  with v s show ?thesis by simp
qed

text \<open>
  Claim C10. When \<open>1 \<le> recall_at \<le> ground_truth_dims\<close>, \<open>recall_at \<le>
  result_dims\<close> and every array holds \<open>num_queries\<close> rows of its width, no read of
  \<open>calculate_recall\<close> is out of bounds: the call returns a value and never the error
  \<open>OutOfBounds\<close>. In particular \<open>recall_at - 1\<close> does not wrap and is an index into
  a ground-truth row.
\<close>

theorem accesses_in_bounds:
  assumes "valid_input num_queries gti gtd ground_truth_dims r result_dims recall_at"
  shows "(\<exists>v. calculate_recall num_queries gti gtd ground_truth_dims r result_dims recall_at =
            Inr v) \<and>
         unat (recall_at - 1) = unat recall_at - 1 \<and>
         unat (recall_at - 1) < unat ground_truth_dims"
proof -
  from assms have "1 \<le> recall_at" "recall_at \<le> ground_truth_dims"
    by (simp_all add: valid_input_def)
  then have "unat (recall_at - 1) = unat recall_at - 1"
    "unat (recall_at - 1) < unat ground_truth_dims"
    using unat_pred [of recall_at] by (simp_all add: word_le_nat_alt)
  then show ?thesis
    by (simp add: calculate_recall_valid [OF assms])
qed

text \<open>
  One query over the distances \<open>[1, 1, 2, 3]\<close>, \<open>recall_at = 1\<close>.
\<close>

theorem accesses_in_bounds_witness:
  "valid_input 1 [10, 11, 12, 13] (Some [Fin 1, Fin 1, Fin 2, Fin 3]) 4 [11] 1 1 \<and>
   (\<exists>v. calculate_recall 1 [10, 11, 12, 13] (Some [Fin 1, Fin 1, Fin 2, Fin 3]) 4 [11] 1 1 =
      Inr v) \<and>
   unat (1 - 1 :: u32) < unat (4 :: u32)"
proof -
  have v: "valid_input 1 [10, 11, 12, 13] (Some [Fin 1, Fin 1, Fin 2, Fin 3]) 4 [11] 1 1"
    by (simp add: valid_input_def)
  from accesses_in_bounds [OF v] v show ?thesis
    by simp
qed

section \<open>The ground-truth set of a query\<close>

lemma loop_body_bounds:
  assumes "loop_body gd rd ra i s = Inr s'"
  shows "\<exists>tb. tie_breaker_of (ground_truth_dists s) gd ra i = Inr tb \<and>
           (tb = 0 \<or> unat gd * i + tb \<le> length (ground_truth_ids s)) \<and>
           (unat ra = 0 \<or> unat rd * i + unat ra \<le> length (results s))"
proof -
  from assms obtain tb where
    tb: "tie_breaker_of (ground_truth_dists s) gd ra i = Inr tb"
    by (auto simp: loop_body_def Let_def split: sum.splits)
  from assms tb obtain g where
    g: "read_range (ground_truth_ids s) (unat gd * i) tb = Inr g"
    by (auto simp: loop_body_def Let_def split: sum.splits)
  from assms tb g obtain r where
    r: "read_range (results s) (unat rd * i) (unat ra) = Inr r"
    by (auto simp: loop_body_def Let_def split: sum.splits)
  from tb g r show ?thesis
    by (auto simp: read_range_Inr)
qed

lemma loop_body_gt:
  assumes "loop_body gd rd ra i s = Inr s'"
    and "tie_breaker_of (ground_truth_dists s) gd ra i = Inr tb"
  shows "gt s' = set (take tb (drop (unat gd * i) (ground_truth_ids s)))"
  by (subst loop_body_Inr [OF assms(1)]) (simp add: query_gt_def assms(2))

text \<open>
  Claim C7. Without distances (the pointer \<open>gtd_ptr\<close> is null) the set \<open>gt\<close> of a
  query holds the first \<open>recall_at\<close> ground-truth ids of its row and nothing else:
  \<open>tie_breaker\<close> stays \<open>recall_at\<close>, and the row has that many ids.
\<close>

theorem no_distances_first_k:
  assumes "ground_truth_dists s = None"
    and "loop_body ground_truth_dims result_dims recall_at i s = Inr s'"
  shows "gt s' = set (take (unat recall_at) (drop (unat ground_truth_dims * i) (ground_truth_ids s))) \<and>
         length (take (unat recall_at) (drop (unat ground_truth_dims * i) (ground_truth_ids s))) =
           unat recall_at"
proof -
  from assms(1) have tb:
    "tie_breaker_of (ground_truth_dists s) ground_truth_dims recall_at i = Inr (unat recall_at)"
    by (simp add: tie_breaker_of_def)
  from loop_body_bounds [OF assms(2)] tb have
    "unat recall_at = 0 \<or>
     unat ground_truth_dims * i + unat recall_at \<le> length (ground_truth_ids s)"
    by simp
  then have "length (take (unat recall_at)
      (drop (unat ground_truth_dims * i) (ground_truth_ids s))) = unat recall_at"
    by auto
  with loop_body_gt [OF assms(2) tb] show ?thesis
    by simp
qed

text \<open>
  The second of two queries, two ground-truth ids each, no distances; the sets of the
  first query are still in \<open>gt\<close> and \<open>res\<close> when the iteration starts.
\<close>

lemma loop_body_example_no_dists:
  "loop_body 2 2 2 1
     \<lparr>ground_truth_ids = [10, 11, 12, 13], ground_truth_dists = None,
      results = [11, 10, 5, 12], gt = {10, 11}, res = {10, 11}, total_recall = 2\<rparr> =
   Inr \<lparr>ground_truth_ids = [10, 11, 12, 13], ground_truth_dists = None,
        results = [11, 10, 5, 12], gt = {12, 13}, res = {5, 12}, total_recall = 3\<rparr>"
  unfolding loop_body_def filter_mem_Int
  by (simp add: tie_breaker_of_def read_range_def Let_def)

theorem no_distances_first_k_witness:
  "gt (projr (loop_body 2 2 2 1
     \<lparr>ground_truth_ids = [10, 11, 12, 13], ground_truth_dists = None,
      results = [11, 10, 5, 12], gt = {10, 11}, res = {10, 11}, total_recall = 2\<rparr>)) =
   {12, 13}"
proof -
  let ?s = "\<lparr>ground_truth_ids = [10, 11, 12, 13], ground_truth_dists = None,
      results = [11, 10, 5, 12], gt = {10, 11}, res = {10, 11}, total_recall = 2 :: nat\<rparr>"
  have d: "ground_truth_dists ?s = None" by simp
  from no_distances_first_k [OF d loop_body_example_no_dists]
  show ?thesis
    unfolding loop_body_example_no_dists by simp
qed

subsection \<open>With distances: ties at rank \<open>recall_at\<close>\<close>

lemma fp_le_antisym: "fp_le a b \<Longrightarrow> fp_le b a \<Longrightarrow> fp_eq a b"
  by (cases a; cases b) (auto simp: fp_eq_def)

lemma fp_eq_sym: "fp_eq a b \<Longrightarrow> fp_eq b a"
  by (auto simp: fp_eq_def)

lemma fp_eq_le: "fp_eq a b \<Longrightarrow> fp_le c a \<Longrightarrow> fp_le c b"
  by (auto simp: fp_eq_def)

lemma fp_eq_refl: "fp_eq a b \<Longrightarrow> fp_eq b b"
  by (auto simp: fp_eq_def)

lemma gt_dist_vec_nth:
  "unat gd * i + unat gd \<le> length gtd \<Longrightarrow> j < unat gd \<Longrightarrow>
     gt_dist_vec gtd gd i ! j = gtd ! (unat gd * i + j)"
  by (simp add: gt_dist_vec_def)

lemma gt_dist_vec_length:
  "unat gd * i + unat gd \<le> length gtd \<Longrightarrow> length (gt_dist_vec gtd gd i) = unat gd"
  by (simp add: gt_dist_vec_def)

lemma tie_run_in_gt:
  assumes d: "ground_truth_dists s = Some gtd"
    and row: "unat gd * i + unat gd \<le> length gtd"
    and rk: "ranked (gt_dist_vec gtd gd i)"
    and run: "loop_body gd rd ra i s = Inr s'"
    and j: "j < unat gd"
    and tie: "j < unat (ra - 1) \<or>
      fp_eq (gt_dist_vec gtd gd i ! j) (gt_dist_vec gtd gd i ! unat (ra - 1))"
  shows "ground_truth_ids s ! (unat gd * i + j) \<in> gt s'"
proof -
  let ?row = "gt_dist_vec gtd gd i"
  let ?p = "unat (ra - 1)"
  from loop_body_bounds [OF run] d obtain tb where
    tb: "tie_scan gtd (unat gd * i) gd ra ?p = Inr tb" and
    ids: "tb = 0 \<or> unat gd * i + tb \<le> length (ground_truth_ids s)" and
    tb_of: "tie_breaker_of (ground_truth_dists s) gd ra i = Inr tb"
    by (auto simp: tie_breaker_of_def)
  from tie_scan_Inr [OF tb] have
    lo: "?p \<le> tb" and
    stop: "tb < unat gd \<longrightarrow> \<not> fp_eq (gtd ! (unat gd * i + tb)) (gtd ! (unat gd * i + ?p))"
    by auto
  have nth: "\<And>m. m < unat gd \<Longrightarrow> ?row ! m = gtd ! (unat gd * i + m)"
    by (rule gt_dist_vec_nth [OF row])
  have len: "length ?row = unat gd"
    by (rule gt_dist_vec_length [OF row])
  have "j < tb"
  proof (rule ccontr)
    assume "\<not> j < tb"
    then have tbj: "tb \<le> j" by simp
    with lo tie have tie: "fp_eq (?row ! j) (?row ! ?p)" by auto
    from tbj j have tb_lt: "tb < unat gd" by simp
    with lo have p_lt: "?p < unat gd" by simp
    have ne: "\<not> fp_eq (?row ! tb) (?row ! ?p)"
      unfolding nth [OF tb_lt] nth [OF p_lt] using stop tb_lt by blast
    have le1: "fp_le (?row ! ?p) (?row ! tb)" if "?p < tb"
      using rk that tb_lt len by (simp add: ranked_def sorted_wrt_iff_nth_less)
    have le2: "fp_le (?row ! tb) (?row ! j)" if "tb < j"
      using rk that j len by (simp add: ranked_def sorted_wrt_iff_nth_less)
    show False
    proof (cases "tb = j")
      case True
      with tie ne show False by simp
    next
      case False
      with tbj have tj: "tb < j" by simp
      show False
      proof (cases "?p = tb")
        case True
        from fp_eq_refl [OF tie] True ne show False by simp
      next
        case False
        with lo have "?p < tb" by simp
        from le1 [OF this] le2 [OF tj] tie
        have "fp_le (?row ! ?p) (?row ! tb)" "fp_le (?row ! tb) (?row ! ?p)"
          by (auto intro: fp_eq_le)
        from fp_le_antisym [OF this(2) this(1)] ne show False by simp
      qed
    qed
  qed
  with ids have "unat gd * i + tb \<le> length (ground_truth_ids s)" by auto
  with \<open>j < tb\<close> have
    "take tb (drop (unat gd * i) (ground_truth_ids s)) ! j = ground_truth_ids s ! (unat gd * i + j)"
    "j < length (take tb (drop (unat gd * i) (ground_truth_ids s)))"
    by simp_all
  then have "ground_truth_ids s ! (unat gd * i + j) \<in>
      set (take tb (drop (unat gd * i) (ground_truth_ids s)))"
    by (metis nth_mem)
  then show ?thesis
    by (simp add: loop_body_gt [OF run tb_of])
qed

lemma tie_example_body:
  "loop_body 4 1 1 0
     \<lparr>ground_truth_ids = [a, b, c, d],
      ground_truth_dists = Some [Fin 1, Fin 1, Fin 2, Fin 3],
      results = [x], gt = {}, res = {}, total_recall = 0\<rparr> =
   Inr \<lparr>ground_truth_ids = [a, b, c, d],
        ground_truth_dists = Some [Fin 1, Fin 1, Fin 2, Fin 3],
        results = [x], gt = {a, b}, res = {x},
        total_recall = card ({a, b} \<inter> {x})\<rparr>"
proof -
  have "tie_scan [Fin 1, Fin 1, Fin 2, Fin 3] 0 4 1 0 = Inr 2"
    by (simp add: tie_scan.simps read_at_def fp_eq_def)
  then show ?thesis
    unfolding loop_body_def filter_mem_Int
    by (simp add: tie_breaker_of_def read_range_def Let_def)
qed

lemma tie_example_recall:
  assumes "x = a \<or> x = b"
  shows "calculate_recall 1 [a, b, c, d] (Some [Fin 1, Fin 1, Fin 2, Fin 3]) 4 [x] 1 1 =
     Inr (Fin 100,
          \<lparr>ground_truth_ids = [a, b, c, d],
           ground_truth_dists = Some [Fin 1, Fin 1, Fin 2, Fin 3], results = [x]\<rparr>)"
proof -
  from assms have "card ({a, b} \<inter> {x}) = 1" by auto
  then show ?thesis
    by (simp add: calculate_recall_def recall_loop.simps tie_example_body
        memory.truncate_def double_of_unsigned_def round_double_eval)
qed

text \<open>
  Claim C1. With distances, the set \<open>gt\<close> of a query whose row of distances is
  ranked (nearest first) holds the ids ranked before \<open>recall_at\<close> and the id of every
  entry of the row whose distance equals (\<open>==\<close>) the distance at rank \<open>recall_at\<close>,
  which the code reads at index \<open>recall_at - 1\<close>, also past position \<open>recall_at\<close>.
  For the distances \<open>[1, 1, 2, 3]\<close> and \<open>recall_at = 1\<close> the set holds the ids at
  ranks 0 and 1, and a result that is either of the two gives a recall of 100.
\<close>

theorem tie_expansion:
  "(ground_truth_dists s = Some gtd \<and>
    unat ground_truth_dims * i + unat ground_truth_dims \<le> length gtd \<and>
    ranked (gt_dist_vec gtd ground_truth_dims i) \<and>
    loop_body ground_truth_dims result_dims recall_at i s = Inr s' \<and>
    j < unat ground_truth_dims \<and>
    (j < unat (recall_at - 1) \<or>
     fp_eq (gt_dist_vec gtd ground_truth_dims i ! j)
           (gt_dist_vec gtd ground_truth_dims i ! unat (recall_at - 1)))
    \<longrightarrow> ground_truth_ids s ! (unat ground_truth_dims * i + j) \<in> gt s') \<and>
   map_sum id gt
     (loop_body 4 1 1 0
        \<lparr>ground_truth_ids = [a, b, c, d],
         ground_truth_dists = Some [Fin 1, Fin 1, Fin 2, Fin 3],
         results = [x], gt = {}, res = {}, total_recall = 0\<rparr>) = Inr {a, b} \<and>
   (x = a \<or> x = b \<longrightarrow>
      calculate_recall 1 [a, b, c, d] (Some [Fin 1, Fin 1, Fin 2, Fin 3]) 4 [x] 1 1 =
        Inr (Fin 100,
             \<lparr>ground_truth_ids = [a, b, c, d],
              ground_truth_dists = Some [Fin 1, Fin 1, Fin 2, Fin 3], results = [x]\<rparr>))"
proof (intro conjI impI)
  assume "ground_truth_dists s = Some gtd \<and>
    unat ground_truth_dims * i + unat ground_truth_dims \<le> length gtd \<and>
    ranked (gt_dist_vec gtd ground_truth_dims i) \<and>
    loop_body ground_truth_dims result_dims recall_at i s = Inr s' \<and>
    j < unat ground_truth_dims \<and>
    (j < unat (recall_at - 1) \<or>
     fp_eq (gt_dist_vec gtd ground_truth_dims i ! j)
           (gt_dist_vec gtd ground_truth_dims i ! unat (recall_at - 1)))"
  then show "ground_truth_ids s ! (unat ground_truth_dims * i + j) \<in> gt s'"
    using tie_run_in_gt [of s gtd ground_truth_dims i result_dims recall_at s' j] by blast
next
  show "map_sum id gt
     (loop_body 4 1 1 0
        \<lparr>ground_truth_ids = [a, b, c, d],
         ground_truth_dists = Some [Fin 1, Fin 1, Fin 2, Fin 3],
         results = [x], gt = {}, res = {}, total_recall = 0\<rparr>) = Inr {a, b}"
    unfolding tie_example_body by simp
next
  assume "x = a \<or> x = b"
  then show "calculate_recall 1 [a, b, c, d] (Some [Fin 1, Fin 1, Fin 2, Fin 3]) 4 [x] 1 1 =
        Inr (Fin 100,
             \<lparr>ground_truth_ids = [a, b, c, d],
              ground_truth_dists = Some [Fin 1, Fin 1, Fin 2, Fin 3], results = [x]\<rparr>)"
    by (rule tie_example_recall)
qed

text \<open>
  The row \<open>[1, 1, 2, 3]\<close> with the ids 10 to 13: the entry at index 1 ties with rank
  1, so 11 is in \<open>gt\<close>, and the result 11 has recall 100.
\<close>

theorem tie_expansion_witness:
  "ranked (gt_dist_vec [Fin 1, Fin 1, Fin 2, Fin 3] 4 0) \<and>
   fp_eq (gt_dist_vec [Fin 1, Fin 1, Fin 2, Fin 3] 4 0 ! 1)
         (gt_dist_vec [Fin 1, Fin 1, Fin 2, Fin 3] 4 0 ! unat (1 - 1 :: u32)) \<and>
   loop_body 4 1 1 0
     \<lparr>ground_truth_ids = [10, 11, 12, 13],
      ground_truth_dists = Some [Fin 1, Fin 1, Fin 2, Fin 3],
      results = [11], gt = {}, res = {}, total_recall = 0\<rparr> =
   Inr \<lparr>ground_truth_ids = [10, 11, 12, 13],
        ground_truth_dists = Some [Fin 1, Fin 1, Fin 2, Fin 3],
        results = [11], gt = {10, 11}, res = {11}, total_recall = 1\<rparr> \<and>
   [10, 11, 12, 13 :: u32] ! (unat (4 :: u32) * 0 + 1) \<in>
     gt \<lparr>ground_truth_ids = [10, 11, 12, 13],
         ground_truth_dists = Some [Fin 1, Fin 1, Fin 2, Fin 3],
         results = [11], gt = {10, 11}, res = {11}, total_recall = 1\<rparr> \<and>
   calculate_recall 1 [10, 11, 12, 13] (Some [Fin 1, Fin 1, Fin 2, Fin 3]) 4 [11] 1 1 =
     Inr (Fin 100,
          \<lparr>ground_truth_ids = [10, 11, 12, 13],
           ground_truth_dists = Some [Fin 1, Fin 1, Fin 2, Fin 3], results = [11]\<rparr>)"
proof -
  let ?s = "\<lparr>ground_truth_ids = [10, 11, 12, 13 :: u32],
      ground_truth_dists = Some [Fin 1, Fin 1, Fin 2, Fin 3],
      results = [11 :: u32], gt = {}, res = {}, total_recall = 0 :: nat\<rparr>"
  let ?s' = "\<lparr>ground_truth_ids = [10, 11, 12, 13 :: u32],
      ground_truth_dists = Some [Fin 1, Fin 1, Fin 2, Fin 3],
      results = [11 :: u32], gt = {10, 11}, res = {11}, total_recall = 1 :: nat\<rparr>"
  have rk: "ranked (gt_dist_vec [Fin 1, Fin 1, Fin 2, Fin 3] 4 0)"
    by (simp add: ranked_def gt_dist_vec_def)
  have tie: "fp_eq (gt_dist_vec [Fin 1, Fin 1, Fin 2, Fin 3] 4 0 ! 1)
         (gt_dist_vec [Fin 1, Fin 1, Fin 2, Fin 3] 4 0 ! unat (1 - 1 :: u32))"
    by (simp add: gt_dist_vec_def fp_eq_def)
  have run: "loop_body 4 1 1 0 ?s = Inr ?s'"
    by (simp add: tie_example_body)
  have d: "ground_truth_dists ?s = Some [Fin 1, Fin 1, Fin 2, Fin 3]" by simp
  have len: "unat (4 :: u32) * 0 + unat (4 :: u32) \<le> length [Fin 1, Fin 1, Fin 2, Fin 3]"
    by simp
  note t = tie_expansion [of ?s "[Fin 1, Fin 1, Fin 2, Fin 3]" 4 0 1 1 ?s' 1 10 11 12 13 11]
  from t [THEN conjunct1] d len rk tie run
  have "ground_truth_ids ?s ! (unat (4 :: u32) * 0 + 1) \<in> gt ?s'"
    by simp
  moreover from t [THEN conjunct2, THEN conjunct2]
  have "calculate_recall 1 [10, 11, 12, 13] (Some [Fin 1, Fin 1, Fin 2, Fin 3]) 4 [11] 1 1 =
     Inr (Fin 100,
          \<lparr>ground_truth_ids = [10, 11, 12, 13],
           ground_truth_dists = Some [Fin 1, Fin 1, Fin 2, Fin 3], results = [11]\<rparr>)"
    by simp
  ultimately show ?thesis
    using rk tie run by simp
qed

text \<open>
  Claim C3. With distances and a rank \<open>recall_at\<close> in the row, the scan starts at
  index \<open>recall_at - 1\<close> and stops at \<open>ground_truth_dims\<close> at the latest: the set
  \<open>gt\<close> holds the first \<open>tie_breaker \<le> ground_truth_dims\<close> ids of the row. When
  every entry from rank \<open>recall_at\<close> to the end of the row ties, whatever follows the
  row in the array, \<open>gt\<close> is the \<open>ground_truth_dims\<close> ids of the row, and
  \<open>cur_recall\<close> counts the ids of this set among the first \<open>recall_at\<close> results.
\<close>

theorem tie_truncated:
  assumes d: "ground_truth_dists s = Some gtd"
    and k: "1 \<le> recall_at" "recall_at \<le> ground_truth_dims"
    and row: "unat ground_truth_dims * i + unat ground_truth_dims \<le> length gtd"
    and run: "loop_body ground_truth_dims result_dims recall_at i s = Inr s'"
  shows "\<exists>tie_breaker.
           tie_breaker_of (Some gtd) ground_truth_dims recall_at i = Inr tie_breaker \<and>
           unat recall_at - 1 \<le> tie_breaker \<and> tie_breaker \<le> unat ground_truth_dims \<and>
           gt s' = set (take tie_breaker
                          (drop (unat ground_truth_dims * i) (ground_truth_ids s))) \<and>
           ((\<forall>j. unat recall_at - 1 \<le> j \<and> j < unat ground_truth_dims \<longrightarrow>
                 fp_eq (gt_dist_vec gtd ground_truth_dims i ! j)
                       (gt_dist_vec gtd ground_truth_dims i ! (unat recall_at - 1)))
            \<longrightarrow> tie_breaker = unat ground_truth_dims) \<and>
           total_recall s' = total_recall s +
             card (Set.filter
                     (\<lambda>v. v \<in> set (take (unat recall_at)
                                       (drop (unat result_dims * i) (results s))))
                     (gt s'))"
proof -
  let ?row = "gt_dist_vec gtd ground_truth_dims i"
  let ?p = "unat recall_at - 1"
  let ?gd = "unat ground_truth_dims"
  from k have p: "unat (recall_at - 1) = ?p" "?p < ?gd"
    using unat_pred [of recall_at] by (simp_all add: word_le_nat_alt)
  from loop_body_bounds [OF run] d obtain tb where
    tb: "tie_scan gtd (?gd * i) ground_truth_dims recall_at (unat (recall_at - 1)) = Inr tb" and
    tb_of: "tie_breaker_of (ground_truth_dists s) ground_truth_dims recall_at i = Inr tb"
    by (auto simp: tie_breaker_of_def)
  from tie_scan_Inr [OF tb] p have
    lo: "?p \<le> tb" and hi: "tb \<le> ?gd" and
    stop: "tb < ?gd \<longrightarrow> \<not> fp_eq (gtd ! (?gd * i + tb)) (gtd ! (?gd * i + ?p))"
    by auto
  have nth: "\<And>m. m < ?gd \<Longrightarrow> ?row ! m = gtd ! (?gd * i + m)"
    by (rule gt_dist_vec_nth [OF row])
  have full: "tb = ?gd"
    if all: "\<forall>j. ?p \<le> j \<and> j < ?gd \<longrightarrow> fp_eq (?row ! j) (?row ! ?p)"
  proof (rule ccontr)
    assume "tb \<noteq> ?gd"
    with hi have lt: "tb < ?gd" by simp
    with all lo have "fp_eq (?row ! tb) (?row ! ?p)" by blast
    then have "fp_eq (gtd ! (?gd * i + tb)) (gtd ! (?gd * i + ?p))"
      unfolding nth [OF lt] nth [OF p(2)] .
    with stop lt show False by blast
  qed
  have g: "gt s' = set (take tb (drop (?gd * i) (ground_truth_ids s)))"
    by (rule loop_body_gt [OF run tb_of])
  have tot: "total_recall s' = total_recall s +
      card (Set.filter
              (\<lambda>v. v \<in> set (take (unat recall_at) (drop (unat result_dims * i) (results s))))
              (gt s'))"
    unfolding g
    by (subst loop_body_Inr [OF run]) (simp add: matched_def query_gt_def tb_of)
  from tb_of d have "tie_breaker_of (Some gtd) ground_truth_dims recall_at i = Inr tb"
    by simp
  with lo hi g full tot show ?thesis
    by blast
qed

text \<open>
  Two rows of two distances. The tie at distance 1 goes on into the second row; the set
  of the first query stops at its own two ids.
\<close>

lemma truncation_example_body:
  "loop_body 2 1 1 0
     \<lparr>ground_truth_ids = [10, 11, 12, 13],
      ground_truth_dists = Some [Fin 1, Fin 1, Fin 1, Fin 5],
      results = [11, 12], gt = {}, res = {}, total_recall = 0\<rparr> =
   Inr \<lparr>ground_truth_ids = [10, 11, 12, 13],
        ground_truth_dists = Some [Fin 1, Fin 1, Fin 1, Fin 5],
        results = [11, 12], gt = {10, 11}, res = {11}, total_recall = 1\<rparr>"
proof -
  have "tie_scan [Fin 1, Fin 1, Fin 1, Fin 5] 0 2 1 0 = Inr 2"
    by (simp add: tie_scan.simps read_at_def fp_eq_def)
  then show ?thesis
    unfolding loop_body_def filter_mem_Int
    by (simp add: tie_breaker_of_def read_range_def Let_def)
qed

theorem tie_truncated_witness:
  "fp_eq ([Fin 1, Fin 1, Fin 1, Fin 5] ! 2) ([Fin 1, Fin 1, Fin 1, Fin 5] ! 0) \<and>
   tie_breaker_of (Some [Fin 1, Fin 1, Fin 1, Fin 5]) 2 1 0 = Inr 2 \<and>
   gt (projr (loop_body 2 1 1 0
     \<lparr>ground_truth_ids = [10, 11, 12, 13],
      ground_truth_dists = Some [Fin 1, Fin 1, Fin 1, Fin 5],
      results = [11, 12], gt = {}, res = {}, total_recall = 0\<rparr>)) = {10, 11}"
proof -
  let ?gtd = "[Fin 1, Fin 1, Fin 1, Fin 5]"
  let ?s = "\<lparr>ground_truth_ids = [10, 11, 12, 13 :: u32],
      ground_truth_dists = Some ?gtd,
      results = [11, 12 :: u32], gt = {}, res = {}, total_recall = 0 :: nat\<rparr>"
  have d: "ground_truth_dists ?s = Some ?gtd" by simp
  have k: "(1 :: u32) \<le> 1" "(1 :: u32) \<le> 2" by simp_all
  have row: "unat (2 :: u32) * 0 + unat (2 :: u32) \<le> length ?gtd" by simp
  have all: "\<forall>j. unat (1 :: u32) - 1 \<le> j \<and> j < unat (2 :: u32) \<longrightarrow>
      fp_eq (gt_dist_vec ?gtd 2 0 ! j) (gt_dist_vec ?gtd 2 0 ! (unat (1 :: u32) - 1))"
  proof (intro allI impI)
    fix j assume "unat (1 :: u32) - 1 \<le> j \<and> j < unat (2 :: u32)"
    then have "j = 0 \<or> j = 1" by auto
    then show "fp_eq (gt_dist_vec ?gtd 2 0 ! j) (gt_dist_vec ?gtd 2 0 ! (unat (1 :: u32) - 1))"
      by (auto simp: gt_dist_vec_def fp_eq_def)
  qed
  from tie_truncated [OF d k row truncation_example_body] all
  have "tie_breaker_of (Some ?gtd) 2 1 0 = Inr (unat (2 :: u32))"
    by auto
  then show ?thesis
    unfolding truncation_example_body by (simp add: fp_eq_def)
qed

section \<open>No effect on the arrays\<close>

text \<open>
  Claim C8. A call that returns leaves \<open>ground_truth_ids\<close>, \<open>ground_truth_dists\<close>
  and \<open>results\<close> as it found them, and a second call on the arrays as the first one
  left them returns the same recall. (A call with a read out of bounds is undefined
  behaviour; nothing is said of it.)
\<close>

theorem calculate_recall_pure:
  assumes "calculate_recall num_queries gti gtd ground_truth_dims r result_dims recall_at =
      Inr (v, m)"
  shows "m = \<lparr>ground_truth_ids = gti, ground_truth_dists = gtd, results = r\<rparr> \<and>
         calculate_recall num_queries (ground_truth_ids m) (ground_truth_dists m)
           ground_truth_dims (results m) result_dims recall_at = Inr (v, m)"
proof -
  let ?s0 = "\<lparr>ground_truth_ids = gti, ground_truth_dists = gtd, results = r,
              gt = {}, res = {}, total_recall = 0\<rparr>"
  from assms obtain s' where
    s': "recall_loop num_queries ground_truth_dims result_dims recall_at 0 ?s0 = Inr s'" and
    m: "m = memory.truncate s'"
    by (auto simp: calculate_recall_def split: sum.splits)
  from recall_loop_Inr [OF s'] have "memory.truncate s' = memory.truncate ?s0"
    by simp
  with m have "m = \<lparr>ground_truth_ids = gti, ground_truth_dists = gtd, results = r\<rparr>"
    by (simp add: memory.truncate_def)
  with assms show ?thesis
    by simp
qed

text \<open>The call on the row \<open>[1, 1, 2, 3]\<close>, twice.\<close>

theorem calculate_recall_pure_witness:
  "calculate_recall 1 [10, 11, 12, 13] (Some [Fin 1, Fin 1, Fin 2, Fin 3]) 4 [11] 1 1 =
     Inr (Fin 100,
          \<lparr>ground_truth_ids = [10, 11, 12, 13],
           ground_truth_dists = Some [Fin 1, Fin 1, Fin 2, Fin 3], results = [11]\<rparr>) \<and>
   calculate_recall 1
     (ground_truth_ids \<lparr>ground_truth_ids = [10, 11, 12, 13],
           ground_truth_dists = Some [Fin 1, Fin 1, Fin 2, Fin 3], results = [11]\<rparr>)
     (ground_truth_dists \<lparr>ground_truth_ids = [10, 11, 12, 13],
           ground_truth_dists = Some [Fin 1, Fin 1, Fin 2, Fin 3], results = [11]\<rparr>) 4
     (results \<lparr>ground_truth_ids = [10, 11, 12, 13],
           ground_truth_dists = Some [Fin 1, Fin 1, Fin 2, Fin 3], results = [11]\<rparr>) 1 1 =
     Inr (Fin 100,
          \<lparr>ground_truth_ids = [10, 11, 12, 13],
           ground_truth_dists = Some [Fin 1, Fin 1, Fin 2, Fin 3], results = [11]\<rparr>)"
proof -
  have run: "calculate_recall 1 [10, 11, 12, 13] (Some [Fin 1, Fin 1, Fin 2, Fin 3]) 4 [11] 1 1 =
     Inr (Fin 100,
          \<lparr>ground_truth_ids = [10, 11, 12, 13],
           ground_truth_dists = Some [Fin 1, Fin 1, Fin 2, Fin 3], results = [11]\<rparr>)"
    by (rule tie_example_recall) simp
  from calculate_recall_pure [OF run] run show ?thesis
    by blast
qed

section \<open>calculate_recall_numpy_input against calculate_recall\<close>

lemma tie_scan_numpy_input_eq:
  "tie_scan_numpy_input gtd off gd ra tb = tie_scan gtd off gd ra tb"
proof (induction gtd off gd ra tb rule: tie_scan.induct)
  case (1 gtd off gd ra tb)
  show ?case
  proof (cases "tb < unat gd")
    case False
    then show ?thesis
      by (simp add: tie_scan.simps [of gtd off gd ra tb]
          tie_scan_numpy_input.simps [of gtd off gd ra tb])
  next
    case True
    show ?thesis
    proof (cases "read_at gtd (off + tb)")
      case (Inl e)
      with True show ?thesis
        by (simp add: tie_scan.simps [of gtd off gd ra tb]
            tie_scan_numpy_input.simps [of gtd off gd ra tb])
    next
      case a: (Inr a)
      show ?thesis
      proof (cases "read_at gtd (off + unat (ra - 1))")
        case (Inl e)
        with True a show ?thesis
          by (simp add: tie_scan.simps [of gtd off gd ra tb]
              tie_scan_numpy_input.simps [of gtd off gd ra tb])
      next
        case b: (Inr b)
        show ?thesis
        proof (cases "fp_eq a b")
          case False
          with True a b show ?thesis
            by (simp add: tie_scan.simps [of gtd off gd ra tb]
                tie_scan_numpy_input.simps [of gtd off gd ra tb])
        next
          case eq: True
          from "1.IH" [OF True a b eq] True a b eq show ?thesis
            by (simp add: tie_scan.simps [of gtd off gd ra tb]
                tie_scan_numpy_input.simps [of gtd off gd ra tb])
        qed
      qed
    qed
  qed
qed

lemma loop_body_numpy_input_eq:
  "loop_body_numpy_input gd rd ra i s = loop_body gd rd ra i s"
  by (cases "ground_truth_dists s")
    (simp_all add: loop_body_numpy_input_def loop_body_def tie_breaker_of_def
      tie_scan_numpy_input_eq)

lemma recall_loop_numpy_input_eq:
  "recall_loop_numpy_input nq gd rd ra i s = recall_loop nq gd rd ra i s"
proof (induction nq gd rd ra i s rule: recall_loop.induct)
  case (1 nq gd rd ra i s)
  show ?case
  proof (cases "i < unat nq")
    case False
    then show ?thesis
      by (simp add: recall_loop.simps [of nq gd rd ra i s]
          recall_loop_numpy_input.simps [of nq gd rd ra i s])
  next
    case True
    show ?thesis
    proof (cases "loop_body gd rd ra i s")
      case (Inl e)
      with True show ?thesis
        by (simp add: recall_loop.simps [of nq gd rd ra i s]
            recall_loop_numpy_input.simps [of nq gd rd ra i s] loop_body_numpy_input_eq)
    next
      case (Inr s1)
      from "1.IH" [OF True Inr] True Inr show ?thesis
        by (simp add: recall_loop.simps [of nq gd rd ra i s]
            recall_loop_numpy_input.simps [of nq gd rd ra i s] loop_body_numpy_input_eq)
    qed
  qed
qed

text \<open>
  The two bodies compute the same: on a writeable results array
  \<open>calculate_recall_numpy_input\<close> returns what \<open>calculate_recall\<close> returns on a
  vector of the same elements, the other arguments being equal. On an array that is not
  writeable it raises before it reads anything.
\<close>

lemma numpy_input_on_writeable:
  "calculate_recall_numpy_input num_queries gti gtd ground_truth_dims results_array
     result_dims recall_at =
   (if writeable results_array
    then calculate_recall num_queries gti gtd ground_truth_dims (data results_array)
           result_dims recall_at
    else Inl NotWriteable)"
  by (simp add: calculate_recall_numpy_input_def calculate_recall_def mutable_data_def
      recall_loop_numpy_input_eq)

text \<open>
  Claim C9 fails on a read-only array. One query, the id 7 as ground truth and as
  result: \<open>calculate_recall\<close> returns 100; \<open>calculate_recall_numpy_input\<close>, given
  the same element in an array of \<open>unsigned\<close> that is read-only, raises at
  \<open>results.mutable_data()\<close> (line 178) and returns no recall, although it only reads
  through the pointer.
\<close>

theorem numpy_input_read_only_raises:
  "calculate_recall 1 [7] None 1 [7] 1 1 =
     Inr (Fin 100, \<lparr>ground_truth_ids = [7], ground_truth_dists = None, results = [7]\<rparr>) \<and>
   calculate_recall_numpy_input 1 [7] None 1 \<lparr>data = [7], writeable = False\<rparr> 1 1 =
     Inl NotWriteable"
proof -
  have "loop_body 1 1 1 0
      \<lparr>ground_truth_ids = [7], ground_truth_dists = None, results = [7],
       gt = {}, res = {}, total_recall = 0\<rparr> =
    Inr \<lparr>ground_truth_ids = [7], ground_truth_dists = None, results = [7],
         gt = {7}, res = {7}, total_recall = 1\<rparr>"
    unfolding loop_body_def filter_mem_Int
    by (simp add: tie_breaker_of_def read_range_def Let_def)
  then have "calculate_recall 1 [7] None 1 [7] 1 1 =
     Inr (Fin 100, \<lparr>ground_truth_ids = [7], ground_truth_dists = None, results = [7]\<rparr>)"
    by (simp add: calculate_recall_def recall_loop.simps memory.truncate_def
        double_of_unsigned_def round_double_eval)
  moreover have "calculate_recall_numpy_input 1 [7] None 1
      \<lparr>data = [7], writeable = False\<rparr> 1 1 = Inl NotWriteable"
    by (simp add: calculate_recall_numpy_input_def mutable_data_def)
  ultimately show ?thesis by simp
qed

section \<open>What load_index does after load\<close>

text \<open>
  Claim C5. When \<open>load\<close> returns 0, \<open>load_index\<close> calls \<open>cache_bfs_levels\<close> once,
  on the index as \<open>load\<close> left it, with a budget of 1000 nodes and an empty node
  list, and returns 0: the index it leaves is the one that this call leaves, the number
  it prints is the length of the node list that this call returns, and the calls made on
  the index are \<open>load\<close> and then \<open>cache_bfs_levels\<close> with 1000.
\<close>

theorem load_index_warms_cache:
  assumes "fst (load (pq_flash_index self) num_threads (c_str index_path_prefix)
                  (c_str (index_path_prefix @ ''_disk.index''))) = 0"
  shows "load_index load cache_bfs_levels self index_path_prefix num_threads =
     (0,
      self\<lparr>pq_flash_index :=
               snd (cache_bfs_levels
                      (snd (load (pq_flash_index self) num_threads (c_str index_path_prefix)
                              (c_str (index_path_prefix @ ''_disk.index''))))
                      1000 []),
            calls := calls self @
              [Load num_threads (c_str index_path_prefix)
                 (c_str (index_path_prefix @ ''_disk.index'')),
               Cache_bfs_levels 1000 []],
            cout := cout self @
              [Str ''loaded index, cached '',
               Num (length
                      (fst (cache_bfs_levels
                              (snd (load (pq_flash_index self) num_threads
                                      (c_str index_path_prefix)
                                      (c_str (index_path_prefix @ ''_disk.index''))))
                              1000 []))),
               Str '' nodes based on BFS'', Endl]\<rparr>)"
proof -
  obtain r ix1 where
    l: "load (pq_flash_index self) num_threads (c_str index_path_prefix)
          (c_str (index_path_prefix @ ''_disk.index'')) = (r, ix1)"
    by fastforce
  obtain nodes ix2 where
    c: "cache_bfs_levels ix1 1000 [] = (nodes, ix2)"
    by fastforce
  from assms l have "r = 0" by simp
  with l c show ?thesis
    by (simp add: load_index_def Let_def)
qed

text \<open>
  An index that keeps the budgets it was warmed with, and a cache warming that returns
  as many nodes as its budget allows of the three the graph has: after \<open>load_index\<close>
  the index holds the budget 1000.
\<close>

theorem load_index_warms_cache_witness:
  "load_index (\<lambda>ix n p q. (0, []))
     (\<lambda>ix budget nodes. (nodes @ take (unat budget) [0, 1, 2], ix @ [budget]))
     \<lparr>pq_flash_index = [7], calls = [], cout = []\<rparr> ''idx'' 4 =
   (0, \<lparr>pq_flash_index = [1000],
        calls = [Load 4 ''idx'' ''idx_disk.index'', Cache_bfs_levels 1000 []],
        cout = [Str ''loaded index, cached '', Num 3, Str '' nodes based on BFS'', Endl]\<rparr>)"
proof -
  let ?load = "\<lambda>(ix :: u64 list) (n :: int) (p :: string) (q :: string).
    (0 :: int, [] :: u64 list)"
  let ?cache = "\<lambda>(ix :: u64 list) (budget :: u64) (nodes :: u32 list).
    (nodes @ take (unat budget) [0, 1, 2], ix @ [budget])"
  let ?self = "\<lparr>pq_flash_index = [7 :: u64], calls = [], cout = []\<rparr>"
  have ok: "fst (?load (pq_flash_index ?self) 4 (c_str ''idx'')
      (c_str (''idx'' @ ''_disk.index''))) = 0"
    by simp
  from load_index_warms_cache [of ?load ?self 4 "''idx''" ?cache, OF ok]
  show ?thesis
    by (simp add: c_str_def)
qed

lemma load_index_fails:
  assumes "fst (load (pq_flash_index self) num_threads (c_str index_path_prefix)
                  (c_str (index_path_prefix @ ''_disk.index''))) \<noteq> 0"
  shows "load_index load cache_bfs_levels self index_path_prefix num_threads =
     (fst (load (pq_flash_index self) num_threads (c_str index_path_prefix)
             (c_str (index_path_prefix @ ''_disk.index''))),
      self\<lparr>pq_flash_index :=
               snd (load (pq_flash_index self) num_threads (c_str index_path_prefix)
                      (c_str (index_path_prefix @ ''_disk.index''))),
            calls := calls self @
              [Load num_threads (c_str index_path_prefix)
                 (c_str (index_path_prefix @ ''_disk.index''))],
            cout := cout self @ [Str ''Index load failed'', Endl]\<rparr>)"
proof -
  obtain r ix1 where
    l: "load (pq_flash_index self) num_threads (c_str index_path_prefix)
          (c_str (index_path_prefix @ ''_disk.index'')) = (r, ix1)"
    by fastforce
  with assms have "r \<noteq> 0" by simp
  with l show ?thesis
    by (simp add: load_index_def Let_def)
qed

text \<open>
  Claim C6. When \<open>load\<close> returns a status other than 0, \<open>load_index\<close> returns this
  status, the only call it makes on the index is \<open>load\<close> (no \<open>cache_bfs_levels\<close>),
  and it leaves the index as \<open>load\<close> left it. With \<open>load\<close> as the specification
  describes it, the index is then \<open>Unloaded\<close> and serves no query.
\<close>

theorem load_index_failure:
  "(fst (load (pq_flash_index self) num_threads (c_str index_path_prefix)
           (c_str (index_path_prefix @ ''_disk.index''))) \<noteq> 0 \<longrightarrow>
      fst (load_index load cache_bfs_levels self index_path_prefix num_threads) =
        fst (load (pq_flash_index self) num_threads (c_str index_path_prefix)
               (c_str (index_path_prefix @ ''_disk.index''))) \<and>
      calls (snd (load_index load cache_bfs_levels self index_path_prefix num_threads)) =
        calls self @
          [Load num_threads (c_str index_path_prefix)
             (c_str (index_path_prefix @ ''_disk.index''))] \<and>
      pq_flash_index (snd (load_index load cache_bfs_levels self index_path_prefix
                             num_threads)) =
        snd (load (pq_flash_index self) num_threads (c_str index_path_prefix)
               (c_str (index_path_prefix @ ''_disk.index'')))) \<and>
   (files (c_str index_path_prefix) (c_str (index_path_prefix @ ''_disk.index'')) \<noteq> 0 \<longrightarrow>
      \<not> serves_queries
          (pq_flash_index
             (snd (load_index (pq_flash_load files) warm inst index_path_prefix
                     num_threads))))"
proof (intro conjI impI)
  assume f: "fst (load (pq_flash_index self) num_threads (c_str index_path_prefix)
           (c_str (index_path_prefix @ ''_disk.index''))) \<noteq> 0"
  note r = load_index_fails
    [of load self num_threads index_path_prefix cache_bfs_levels, OF f]
  show "fst (load_index load cache_bfs_levels self index_path_prefix num_threads) =
        fst (load (pq_flash_index self) num_threads (c_str index_path_prefix)
               (c_str (index_path_prefix @ ''_disk.index'')))"
    unfolding r by simp
  show "calls (snd (load_index load cache_bfs_levels self index_path_prefix num_threads)) =
        calls self @
          [Load num_threads (c_str index_path_prefix)
             (c_str (index_path_prefix @ ''_disk.index''))]"
    unfolding r by simp
  show "pq_flash_index (snd (load_index load cache_bfs_levels self index_path_prefix
                             num_threads)) =
        snd (load (pq_flash_index self) num_threads (c_str index_path_prefix)
               (c_str (index_path_prefix @ ''_disk.index'')))"
    unfolding r by simp
next
  assume "files (c_str index_path_prefix) (c_str (index_path_prefix @ ''_disk.index'')) \<noteq> 0"
  then have f: "fst (pq_flash_load files (pq_flash_index inst) num_threads
      (c_str index_path_prefix) (c_str (index_path_prefix @ ''_disk.index''))) \<noteq> 0"
    by (simp add: pq_flash_load_def Let_def)
  show "\<not> serves_queries
          (pq_flash_index
             (snd (load_index (pq_flash_load files) warm inst index_path_prefix
                     num_threads)))"
    unfolding load_index_fails
      [of "pq_flash_load files" inst num_threads index_path_prefix warm, OF f]
    using f by (simp add: pq_flash_load_def serves_queries_def Let_def)
qed

text \<open>An index that was loaded, and a second load that fails with status -1.\<close>

theorem load_index_failure_witness:
  "load_index (pq_flash_load (\<lambda>p q. - 1)) (\<lambda>ix budget nodes. (nodes, ix))
     \<lparr>pq_flash_index = Loaded, calls = [], cout = []\<rparr> ''idx'' 4 =
   (- 1, \<lparr>pq_flash_index = Unloaded,
          calls = [Load 4 ''idx'' ''idx_disk.index''],
          cout = [Str ''Index load failed'', Endl]\<rparr>) \<and>
   \<not> serves_queries Unloaded"
proof -
  let ?files = "\<lambda>(p :: string) (q :: string). - 1 :: int"
  let ?cache = "\<lambda>(ix :: index_state) (budget :: u64) (nodes :: u32 list). (nodes, ix)"
  let ?self = "\<lparr>pq_flash_index = Loaded, calls = [], cout = []\<rparr>"
  have bad: "?files (c_str ''idx'') (c_str (''idx'' @ ''_disk.index'')) \<noteq> 0"
    by simp
  from load_index_failure [of "pq_flash_load ?files" ?self 4 "''idx''" ?cache ?files ?cache ?self]
  show ?thesis
    by (simp add: load_index_def pq_flash_load_def c_str_def serves_queries_def Let_def)
qed

section \<open>The thread count of a batch\<close>

text \<open>
  Claim C4 fails for \<open>batch_search_numpy_input\<close>. With the runtime set to 8 threads
  and \<open>num_threads = 1\<close>, \<open>batch_search\<close> requests a team of 1 and
  \<open>batch_search_numpy_input\<close>, which never reads its \<open>num_threads\<close>, a team of 8.
\<close>

theorem batch_search_numpy_input_ignores_num_threads:
  "team (snd (batch_search_numpy_input \<lparr>nthreads_var = 8\<rparr> 100 1)) = 8 \<and>
   team (snd (batch_search \<lparr>nthreads_var = 8\<rparr> 100 1)) = 1"
  by (simp add: batch_search_numpy_input_def batch_search_def omp_set_num_threads_def)

text \<open>
  In general: \<open>batch_search\<close> requests the team its caller asks for, and
  \<open>batch_search_numpy_input\<close> the team the runtime was left with.
\<close>

lemma batch_search_team:
  "0 < num_threads \<Longrightarrow> team (snd (batch_search rt num_queries num_threads)) = num_threads"
  by (simp add: batch_search_def omp_set_num_threads_def)

lemma batch_search_numpy_input_team:
  "team (snd (batch_search_numpy_input rt num_queries num_threads)) = nthreads_var rt"
  by (simp add: batch_search_numpy_input_def)

end
